theory Spec2Isabelle
  imports Main "HOL-Library.Mapping" "HOL-Library.AList_Mapping" "HOL-Library.Multiset"
begin

section \<open>Actions, transitions, steps and paths\<close>

text \<open>
  The Go type \<^verbatim>\<open>State\<close> is an interface whose only capability is \<^verbatim>\<open>String()\<close>.
  It is the type parameter \<open>'s\<close> here; the rendering is passed, as the function
  \<open>str\<close>, to the few functions that call \<^verbatim>\<open>String()\<close>. A state-change function
  returns \<^verbatim>\<open>nil\<close> when the transition is not possible: that is \<open>None\<close>.
\<close>

datatype Arg = IntArg int | StrArg string

record Action =
  name :: string
  format :: string
  args :: "Arg list"

record 's Transition =
  taction :: Action
  stateChange :: "'s \<Rightarrow> 's option"

record 's Step =
  start :: 's
  action :: Action
  endstate :: 's

type_synonym 's Path = "'s Step list"

text \<open>
  \<^verbatim>\<open>NewAction\<close> renders the name with \<^verbatim>\<open>fmt.Sprintf\<close>, which is outside the
  repository and is the parameter \<open>sprintf\<close>.
\<close>

definition NewAction :: "(string \<Rightarrow> Arg list \<Rightarrow> string) \<Rightarrow> string \<Rightarrow> Arg list \<Rightarrow> Action" where
  "NewAction sprintf fmt as = \<lparr>name = sprintf fmt as, format = fmt, args = as\<rparr>"

definition Action_String :: "Action \<Rightarrow> string" where
  "Action_String a = name a"

definition NewTransition :: "Action \<Rightarrow> ('s \<Rightarrow> 's option) \<Rightarrow> 's Transition" where
  "NewTransition a sc = \<lparr>taction = a, stateChange = sc\<rparr>"

definition NewStep :: "'s \<Rightarrow> Action \<Rightarrow> 's \<Rightarrow> 's Step" where
  "NewStep s a e = \<lparr>start = s, action = a, endstate = e\<rparr>"

definition StartState :: "'s Step \<Rightarrow> 's" where
  "StartState step = start step"

definition EndState :: "'s Step \<Rightarrow> 's" where
  "EndState step = endstate step"

definition NewPath :: "'s Step list \<Rightarrow> 's Path" where
  "NewPath steps = foldl (\<lambda>path step. path @ [step]) [] steps"

section \<open>Model (model.go)\<close>

record 's Model =
  gen :: "('s \<Rightarrow> 's Transition list) list"

definition NewModel :: "'s Model" where
  "NewModel = \<lparr>gen = []\<rparr>"

definition From :: "'s Model \<Rightarrow> ('s \<Rightarrow> 's Transition list) \<Rightarrow> 's Model" where
  "From m transitionGen = m\<lparr>gen := gen m @ [transitionGen]\<rparr>"

definition TransitionsFrom :: "'s Model \<Rightarrow> 's \<Rightarrow> 's Transition list" where
  "TransitionsFrom m s = foldl (\<lambda>ts g. ts @ g s) [] (gen m)"

definition Model_StepsFrom :: "'s Model \<Rightarrow> 's \<Rightarrow> 's Step list" where
  "Model_StepsFrom m s =
     foldl (\<lambda>steps t. case stateChange t s of
                         Some endState \<Rightarrow> steps @ [NewStep s (taction t) endState]
                       | None \<Rightarrow> steps)
       [] (TransitionsFrom m s)"

text \<open>
  \<^verbatim>\<open>Model.Paths(s, maxLen)\<close>. The claims range over \<^verbatim>\<open>maxLen >= 0\<close>, so the depth
  is a \<open>nat\<close>. A \<^verbatim>\<open>nil\<close> slice and an empty slice are both \<open>[]\<close>: the code only
  ever takes their length or ranges over them. \<^verbatim>\<open>NewPath(step)\<close> has length and
  capacity one, so every \<^verbatim>\<open>append(newPath, childPath...)\<close> with a non-empty child
  path allocates a fresh array and the paths collected do not share cells.
\<close>

fun Model_Paths :: "'s Model \<Rightarrow> 's \<Rightarrow> nat \<Rightarrow> 's Path list" where
  "Model_Paths m s 0 = []"
| "Model_Paths m s (Suc n) =
     foldl (\<lambda>paths step.
              let newPath = NewPath [step];
                  childPaths = Model_Paths m (EndState step) n
              in if length childPaths = 0 then paths @ [newPath]
                 else foldl (\<lambda>ps childPath. ps @ [newPath @ childPath]) paths childPaths)
       [] (Model_StepsFrom m s)"

text \<open>The interface \<^verbatim>\<open>Walkable\<close>, as the record of its methods.\<close>

record 's Walkable =
  StepsFrom :: "'s \<Rightarrow> 's Step list"
  Paths :: "'s \<Rightarrow> nat \<Rightarrow> 's Path list"

definition Model_Walkable :: "'s Model \<Rightarrow> 's Walkable" where
  "Model_Walkable m = \<lparr>StepsFrom = Model_StepsFrom m, Paths = Model_Paths m\<rparr>"

section \<open>Walker (walk.go)\<close>

text \<open>
  \<^verbatim>\<open>IterPaths\<close> allocates one buffer \<^verbatim>\<open>make(Path, maxLen, maxLen)\<close> of \<^verbatim>\<open>nil\<close>
  pointers and \<^verbatim>\<open>yieldPaths\<close> writes every step into it and yields slices of it.
  The buffer is a list of optional steps (\<open>None\<close> is \<^verbatim>\<open>nil\<close>), threaded through the
  recursion and returned, so that what a later iteration sees is what earlier ones
  left behind. The consumer \<^verbatim>\<open>yield\<close> is a function on an accumulator that also
  answers whether to go on. The first component of the result is the boolean that
  \<^verbatim>\<open>yieldPaths\<close> returns. The buffer has length \<open>maxLen\<close> throughout, so the bounds
  check of \<^verbatim>\<open>(*path)[index] = step\<close> is \<open>index < maxLen\<close>; beyond it Go panics,
  which is the result \<open>None\<close>.
\<close>

type_synonym 's PathBuf = "'s Step option list"

record 's Walker =
  Walker_m :: "'s Walkable"
  stepFilter :: "('s Step list \<Rightarrow> 's Step list) option"

definition NewWalker :: "'s Walkable \<Rightarrow> 's Walker" where
  "NewWalker m = \<lparr>Walker_m = m, stepFilter = None\<rparr>"

definition SetStepFilter :: "'s Walker \<Rightarrow> ('s Step list \<Rightarrow> 's Step list) \<Rightarrow> 's Walker" where
  "SetStepFilter w f = w\<lparr>stepFilter := Some f\<rparr>"

definition nextSteps :: "'s Walker \<Rightarrow> 's \<Rightarrow> 's Step list" where
  "nextSteps w s =
     (case stepFilter w of
        None \<Rightarrow> StepsFrom (Walker_m w) s
      | Some f \<Rightarrow> f (StepsFrom (Walker_m w) s))"

function
  yieldPaths :: "'s Walker \<Rightarrow> ('a \<Rightarrow> 's PathBuf \<Rightarrow> 'a \<times> bool) \<Rightarrow> 's PathBuf \<Rightarrow> nat \<Rightarrow> 's \<Rightarrow> nat
                 \<Rightarrow> 'a \<Rightarrow> (bool \<times> 's PathBuf \<times> 'a) option"
and
  yieldSteps :: "'s Walker \<Rightarrow> ('a \<Rightarrow> 's PathBuf \<Rightarrow> 'a \<times> bool) \<Rightarrow> 's PathBuf \<Rightarrow> nat \<Rightarrow> 's Step list
                 \<Rightarrow> nat \<Rightarrow> 'a \<Rightarrow> (bool \<times> 's PathBuf \<times> 'a) option"
where
  "yieldPaths w yield path index s maxLen acc =
     (if index = maxLen then
        (case yield acc path of (acc', go) \<Rightarrow> Some (go, path, acc'))
      else if maxLen < index then None
      else if length (nextSteps w s) = 0 then
        (case yield acc (take index path) of (acc', go) \<Rightarrow> Some (go, path, acc'))
      else yieldSteps w yield path index (nextSteps w s) maxLen acc)"
| "yieldSteps w yield path index [] maxLen acc = Some (True, path, acc)"
| "yieldSteps w yield path index (step # steps) maxLen acc =
     (if maxLen \<le> index then None
      else
        (case yieldPaths w yield (path[index := Some step]) (index + 1) (EndState step) maxLen acc of
           None \<Rightarrow> None
         | Some (go, path', acc') \<Rightarrow>
             if \<not> go then Some (False, path', acc')
             else yieldSteps w yield path' index steps maxLen acc'))"
  by pat_completeness auto
termination
  by (relation "measures
       [\<lambda>x. case x of
          Inl (w, yield, path, index, s, maxLen, acc) \<Rightarrow> maxLen - index
        | Inr (w, yield, path, index, steps, maxLen, acc) \<Rightarrow> maxLen - index,
        \<lambda>x. case x of Inl _ \<Rightarrow> 1 | Inr _ \<Rightarrow> 0,
        \<lambda>x. case x of
          Inl _ \<Rightarrow> 0
        | Inr (w, yield, path, index, steps, maxLen, acc) \<Rightarrow> length steps]") auto

definition IterPaths :: "'s Walker \<Rightarrow> 's \<Rightarrow> nat \<Rightarrow> ('a \<Rightarrow> 's PathBuf \<Rightarrow> 'a \<times> bool) \<Rightarrow> 'a
                         \<Rightarrow> (bool \<times> 's PathBuf \<times> 'a) option" where
  "IterPaths w s maxLen yield acc = yieldPaths w yield (replicate maxLen None) 0 s maxLen acc"

text \<open>
  \<^verbatim>\<open>Walker.Paths\<close> ranges over \<^verbatim>\<open>IterPaths\<close> without ever breaking, copies each
  yielded slice and appends the copy. \<open>None\<close> is a panic inside the iteration.
\<close>

definition Walker_Paths :: "'s Walker \<Rightarrow> 's \<Rightarrow> nat \<Rightarrow> 's PathBuf list option" where
  "Walker_Paths w s maxLen =
     (case IterPaths w s maxLen (\<lambda>paths path. (paths @ [path], True)) [] of
        None \<Rightarrow> None
      | Some (go, buf, paths) \<Rightarrow> Some paths)"

subsection \<open>What the enumeration is, without the buffer\<close>

text \<open>
  \<open>walk\<close> is the list of paths that the depth-first traversal of \<^verbatim>\<open>yieldPaths\<close>
  visits, and \<open>feed\<close> hands a list to a consumer until it declines. They are the
  specification against which the buffer-passing code is verified.
\<close>

fun walk :: "('s \<Rightarrow> 's Step list) \<Rightarrow> 's \<Rightarrow> nat \<Rightarrow> 's Path list" where
  "walk nx s 0 = [[]]"
| "walk nx s (Suc n) =
     (if nx s = [] then [[]]
      else concat (map (\<lambda>step. map ((#) step) (walk nx (EndState step) n)) (nx s)))"

fun feed :: "('a \<Rightarrow> 'p \<Rightarrow> 'a \<times> bool) \<Rightarrow> 'a \<Rightarrow> 'p list \<Rightarrow> 'a \<times> bool" where
  "feed yield acc [] = (acc, True)"
| "feed yield acc (p # ps) =
     (case yield acc p of (acc', go) \<Rightarrow> if go then feed yield acc' ps else (acc', False))"



text \<open>A step filter that only selects among the steps it is given.\<close>

definition selects :: "('s Step list \<Rightarrow> 's Step list) \<Rightarrow> bool" where
  "selects f = (\<forall>steps. set (f steps) \<subseteq> set steps)"

section \<open>Coverer (cover.go)\<close>

subsection \<open>Slices, maps and the random generator\<close>

text \<open>
  \<^verbatim>\<open>coveredPath\<close> is a Go slice that the coverer appends to, and
  \<^verbatim>\<open>EstimateCoverageIncrease\<close> appends to a sub-slice of it. A slice is modelled by
  its visible elements together with the cells of its backing array between its
  length and its capacity (\<open>None\<close> is a \<^verbatim>\<open>nil\<close> cell), so that a write through an
  alias into those cells is a change of the model.
\<close>

record 'a slice =
  elems :: "'a list"
  spare :: "'a option list"

definition nil_slice :: "'a slice" where
  "nil_slice = \<lparr>elems = [], spare = []\<rparr>"

definition cap :: "'a slice \<Rightarrow> nat" where
  "cap sl = length (elems sl) + length (spare sl)"

text \<open>
  \<^verbatim>\<open>append(sl, xs...)\<close> writes in place when \<open>xs\<close> fits the capacity. Otherwise it
  allocates an array whose capacity the runtime chooses: \<open>growslice\<close>, a parameter,
  gives it from the old capacity and the length needed.
\<close>

definition go_append :: "(nat \<Rightarrow> nat \<Rightarrow> nat) \<Rightarrow> 'a slice \<Rightarrow> 'a list \<Rightarrow> 'a slice" where
  "go_append growslice sl xs =
     (if length xs \<le> length (spare sl)
      then \<lparr>elems = elems sl @ xs, spare = drop (length xs) (spare sl)\<rparr>
      else \<lparr>elems = elems sl @ xs,
            spare = replicate (growslice (cap sl) (length (elems sl) + length xs)
                                 - (length (elems sl) + length xs)) None\<rparr>)"

text \<open>
  The cells beyond the length of \<open>sl\<close> after \<^verbatim>\<open>append(sl[k:], xs...)\<close>, whose result is
  used and dropped: written when \<open>xs\<close> fits, untouched when a new array is allocated.
\<close>

definition cells_after_append :: "'a option list \<Rightarrow> 'a list \<Rightarrow> 'a option list" where
  "cells_after_append cells xs =
     (if length xs \<le> length cells then map Some xs @ drop (length xs) cells else cells)"

text \<open>
  A Go \<^verbatim>\<open>map[string]int\<close>: reading a missing key gives 0, \<^verbatim>\<open>m[s]++\<close> stores the
  successor, \<^verbatim>\<open>len(m)\<close> is the number of keys.
\<close>

type_synonym counts = "(string, int) mapping"

definition count :: "counts \<Rightarrow> string \<Rightarrow> int" where
  "count m s = Mapping.lookup_default 0 m s"

definition incr :: "counts \<Rightarrow> string \<Rightarrow> counts" where
  "incr m s = Mapping.update s (count m s + 1) m"

definition len :: "counts \<Rightarrow> int" where
  "len m = int (Mapping.size m)"

text \<open>
  \<^verbatim>\<open>math/rand\<close> is outside the repository. A generator is the stream of values it
  is going to draw; \<^verbatim>\<open>Intn(n)\<close> takes the next one into \<open>[0, n)\<close>, and
  \<^verbatim>\<open>Shuffle(n, swap)\<close> is the Fisher-Yates loop \<^verbatim>\<open>for i := n-1; i > 0; i--\<close> that
  calls \<^verbatim>\<open>swap(i, Intn(i+1))\<close>.
\<close>

record Rand =
  draws :: "nat \<Rightarrow> nat"
  pos :: nat

definition Intn :: "Rand \<Rightarrow> nat \<Rightarrow> nat \<times> Rand" where
  "Intn r n = (draws r (pos r) mod n, r\<lparr>pos := pos r + 1\<rparr>)"

definition swap :: "nat \<Rightarrow> nat \<Rightarrow> 'a list \<Rightarrow> 'a list" where
  "swap i j xs = xs[i := xs ! j, j := xs ! i]"

fun Shuffle :: "Rand \<Rightarrow> nat \<Rightarrow> 'a list \<Rightarrow> 'a list \<times> Rand" where
  "Shuffle r 0 xs = (xs, r)"
| "Shuffle r (Suc i) xs = (case Intn r (Suc i + 1) of (j, r') \<Rightarrow> Shuffle r' i (swap (Suc i) j xs))"

subsection \<open>The coverer and its coverage functions\<close>

text \<open>
  \<^verbatim>\<open>historyLen\<close> starts at 0 and is only ever raised, so it is a \<open>nat\<close>.
\<close>

record 's Coverer =
  coveredPath :: "'s Step slice"
  coverCount :: counts
  covFuncs :: "('s Path \<Rightarrow> string list) list"
  historyLen :: nat
  rand :: "Rand option"
  randomness :: int

definition BestPathRandomNone :: int where "BestPathRandomNone = 0"
definition BestPathRandomAmongEquallyGood :: int where "BestPathRandomAmongEquallyGood = 1"
definition BestPathRandomAmongFastestMaxCoverageIncrease :: int where
  "BestPathRandomAmongFastestMaxCoverageIncrease = 2"
definition BestPathRandomAmongMaxCoverageIncrease :: int where
  "BestPathRandomAmongMaxCoverageIncrease = 3"
definition BestPathRandomAmongAnyPath :: int where "BestPathRandomAmongAnyPath = 4"

definition NewCoverer :: "'s Coverer" where
  "NewCoverer = \<lparr>coveredPath = nil_slice, coverCount = Mapping.empty, covFuncs = [],
                 historyLen = 0, rand = None, randomness = 0\<rparr>"

definition ActionNames :: "'s Path \<Rightarrow> string list" where
  "ActionNames path = map (\<lambda>t. name (action t)) path"

definition ActionFormats :: "'s Path \<Rightarrow> string list" where
  "ActionFormats path = map (\<lambda>t. format (action t)) path"

definition StateStrings :: "('s \<Rightarrow> string) \<Rightarrow> 's Path \<Rightarrow> string list" where
  "StateStrings str path =
     (case path of
        [] \<Rightarrow> []
      | step0 # _ \<Rightarrow> str (start step0) # map (\<lambda>step. str (endstate step)) path)"

definition sep0 :: string where
  "sep0 = [CHR 0x00]"

definition StateActionStrings :: "('s \<Rightarrow> string) \<Rightarrow> 's Path \<Rightarrow> string list" where
  "StateActionStrings str path =
     map (\<lambda>step. str (StartState step) @ sep0 @ Action_String (action step)) path"

text \<open>\<^verbatim>\<open>strings.Join\<close>.\<close>

fun Join :: "string list \<Rightarrow> string \<Rightarrow> string" where
  "Join [] sep = []"
| "Join [x] sep = x"
| "Join (x # y # rest) sep = x @ sep @ Join (y # rest) sep"

text \<open>
  The closure that the three \<^verbatim>\<open>Cover...Combinations(combLenMax)\<close> register: their
  loops differ only in the function \<open>items\<close> applied to \<^verbatim>\<open>path[first:first+combLen]\<close>.
\<close>

definition combinations :: "('s Path \<Rightarrow> string list) \<Rightarrow> int \<Rightarrow> 's Path \<Rightarrow> string list" where
  "combinations items combLenMax path =
     concat (map (\<lambda>combLen.
               map (\<lambda>first. Join (items (take (nat combLen) (drop (nat first) path))) sep0)
                 [0 .. int (length path) - combLen])
             [1 .. combLenMax])"

definition addCovFunc :: "'s Coverer \<Rightarrow> ('s Path \<Rightarrow> string list) \<Rightarrow> 's Coverer" where
  "addCovFunc c f = c\<lparr>covFuncs := covFuncs c @ [f]\<rparr>"

definition raiseHistoryLen :: "'s Coverer \<Rightarrow> int \<Rightarrow> 's Coverer" where
  "raiseHistoryLen c combLenMax =
     (if int (historyLen c) < combLenMax then c\<lparr>historyLen := nat combLenMax\<rparr> else c)"

definition CoverActions :: "'s Coverer \<Rightarrow> 's Coverer" where
  "CoverActions c = addCovFunc c ActionNames"

definition CoverActionFormats :: "'s Coverer \<Rightarrow> 's Coverer" where
  "CoverActionFormats c = addCovFunc c ActionFormats"

definition CoverActionCombinations :: "'s Coverer \<Rightarrow> int \<Rightarrow> 's Coverer" where
  "CoverActionCombinations c combLenMax =
     addCovFunc (raiseHistoryLen c combLenMax) (combinations ActionNames combLenMax)"

definition CoverActionFormatCombinations :: "'s Coverer \<Rightarrow> int \<Rightarrow> 's Coverer" where
  "CoverActionFormatCombinations c combLenMax =
     addCovFunc (raiseHistoryLen c combLenMax) (combinations ActionFormats combLenMax)"

definition CoverStates :: "('s \<Rightarrow> string) \<Rightarrow> 's Coverer \<Rightarrow> 's Coverer" where
  "CoverStates str c = addCovFunc c (StateStrings str)"

definition CoverStateActions :: "('s \<Rightarrow> string) \<Rightarrow> 's Coverer \<Rightarrow> 's Coverer" where
  "CoverStateActions str c = addCovFunc c (StateActionStrings str)"

definition CoverStateCombinations :: "('s \<Rightarrow> string) \<Rightarrow> 's Coverer \<Rightarrow> int \<Rightarrow> 's Coverer" where
  "CoverStateCombinations str c combLenMax =
     addCovFunc (raiseHistoryLen c combLenMax) (combinations (StateStrings str) combLenMax)"

definition covFunc :: "'s Coverer \<Rightarrow> 's Path \<Rightarrow> string list" where
  "covFunc c path = concat (map (\<lambda>f. f path) (covFuncs c))"

definition Coverage :: "'s Coverer \<Rightarrow> int" where
  "Coverage c = len (coverCount c)"

definition CoveredStrings :: "'s Coverer \<Rightarrow> string set" where
  "CoveredStrings c = Mapping.keys (coverCount c)"

definition UpdateCoverage :: "'s Coverer \<Rightarrow> 's Coverer" where
  "UpdateCoverage c =
     c\<lparr>coverCount := foldl incr Mapping.empty (covFunc c (elems (coveredPath c)))\<rparr>"

definition MarkCovered :: "(nat \<Rightarrow> nat \<Rightarrow> nat) \<Rightarrow> 's Coverer \<Rightarrow> 's Step list \<Rightarrow> 's Coverer" where
  "MarkCovered growslice c steps = c\<lparr>coveredPath := go_append growslice (coveredPath c) steps\<rparr>"

subsection \<open>Estimating the coverage increase\<close>

record CoverageIncreaseStats =
  MaxStep :: int
  MaxIncrease :: int
  FirstStep :: int
  FirstIncrease :: int

text \<open>
  The loop \<^verbatim>\<open>for _, s := range xs { if c.coverCount[s] == 0 { m[s]++ } }\<close>, which
  \<^verbatim>\<open>EstimateCoverageIncrease\<close> runs on \<^verbatim>\<open>fullCoverCount\<close> and on \<^verbatim>\<open>firstCoverCount\<close>.
\<close>

definition countNew :: "counts \<Rightarrow> counts \<Rightarrow> string list \<Rightarrow> counts" where
  "countNew covered m xs = foldl (\<lambda>m s. if count covered s = 0 then incr m s else m) m xs"

text \<open>
  The loop over \<open>i\<close>, from \<open>i\<close> on, with \<^verbatim>\<open>firstCoverCount\<close> and the statistics so far.
  The \<^verbatim>\<open>break\<close> is the branch that does not recurse.
\<close>

function estimateLoop :: "'s Coverer \<Rightarrow> 's Path \<Rightarrow> nat \<Rightarrow> nat \<Rightarrow> counts \<Rightarrow> CoverageIncreaseStats
                            \<Rightarrow> CoverageIncreaseStats" where
  "estimateLoop c pathWithHistory h i firstCoverCount est =
     (if i < length pathWithHistory then
        (let newCovered = covFunc c (take (i + 1) pathWithHistory);
             firstCoverCount' = countNew (coverCount c) firstCoverCount newCovered;
             est1 = (if FirstStep est = - 1 \<and> len firstCoverCount' > 0
                     then est\<lparr>FirstStep := int i - int h, FirstIncrease := len firstCoverCount'\<rparr>
                     else est)
         in if MaxStep est1 = - 1 \<and> len firstCoverCount' = MaxIncrease est1
            then est1\<lparr>MaxStep := int i - int h\<rparr>
            else estimateLoop c pathWithHistory h (i + 1) firstCoverCount' est1)
      else est)"
  by pat_completeness auto
termination
  by (relation "measure (\<lambda>(c, pathWithHistory, h, i, firstCoverCount, est). length pathWithHistory - i)")
     auto

declare estimateLoop.simps [simp del]

text \<open>
  \<^verbatim>\<open>EstimateCoverageIncrease\<close> returns the statistics; the coverer is returned with
  them because \<^verbatim>\<open>append(c.coveredPath[len-historyLen:], path...)\<close> may write into
  the backing array of \<^verbatim>\<open>c.coveredPath\<close>.
\<close>

definition EstimateCoverageIncrease :: "'s Coverer \<Rightarrow> 's Path \<Rightarrow> CoverageIncreaseStats \<times> 's Coverer" where
  "EstimateCoverageIncrease c path =
     (let est = \<lparr>MaxStep = - 1, MaxIncrease = 0, FirstStep = - 1, FirstIncrease = 0\<rparr>;
          fullCoverCount = Mapping.empty;
          n = length (elems (coveredPath c));
          h = (if historyLen c > n then n else historyLen c);
          pathWithHistory = drop (n - h) (elems (coveredPath c)) @ path;
          c' = c\<lparr>coveredPath := (coveredPath c)\<lparr>spare := cells_after_append (spare (coveredPath c)) path\<rparr>\<rparr>;
          allNewCovered = covFunc c' pathWithHistory;
          fullCoverCount' = countNew (coverCount c') fullCoverCount allNewCovered;
          est' = est\<lparr>MaxIncrease := len fullCoverCount'\<rparr>
      in (estimateLoop c' pathWithHistory h h Mapping.empty est', c'))"

text \<open>
  The context prefix in the words of the specification: the last
  \<open>min historyLen (length coveredPath)\<close> steps of the covered path.
\<close>

definition contextPrefix :: "'s Coverer \<Rightarrow> 's Path" where
  "contextPrefix c =
     (let k = min (historyLen c) (length (elems (coveredPath c)))
      in rev (take k (rev (elems (coveredPath c)))))"

text \<open>
  No step of the candidate yields a new coverage item: after each of its steps, every
  item of the coverage functions over the context prefix and the candidate so far
  already has a count.
\<close>

definition noNewItems :: "'s Coverer \<Rightarrow> 's Path \<Rightarrow> bool" where
  "noNewItems c path =
     list_all (\<lambda>i. list_all (\<lambda>x. count (coverCount c) x \<noteq> 0)
                      (covFunc c (contextPrefix c @ take (Suc i) path)))
       [0 ..< length path]"

text \<open>The coverer after \<^verbatim>\<open>append\<close> has written \<open>path\<close> into the spare cells.\<close>

definition touched :: "'s Coverer \<Rightarrow> 's Path \<Rightarrow> 's Coverer" where
  "touched c path =
     c\<lparr>coveredPath := (coveredPath c)\<lparr>spare := cells_after_append (spare (coveredPath c)) path\<rparr>\<rparr>"

subsection \<open>BestPath\<close>

definition SetBestPathRandom :: "(int \<Rightarrow> Rand) \<Rightarrow> 's Coverer \<Rightarrow> int \<Rightarrow> int \<Rightarrow> 's Coverer" where
  "SetBestPathRandom newSource c seed rness = c\<lparr>rand := Some (newSource seed), randomness := rness\<rparr>"

definition ShufflePaths :: "'s Coverer \<Rightarrow> 's Path list \<Rightarrow> 's Path list \<times> 's Coverer" where
  "ShufflePaths c paths =
     (case rand c of
        None \<Rightarrow> (paths, c)
      | Some r \<Rightarrow> (case Shuffle r (length paths - 1) paths of
                    (paths', r') \<Rightarrow> (paths', c\<lparr>rand := Some r'\<rparr>)))"

text \<open>
  The loop of \<^verbatim>\<open>BestPath\<close> over the candidate paths, with \<^verbatim>\<open>best\<close> (\<open>None\<close> is
  \<^verbatim>\<open>nil\<close>) and \<^verbatim>\<open>bestPath\<close>. Every \<^verbatim>\<open>continue\<close> is a recursive call on the rest.
\<close>

fun bestLoop :: "'s Coverer \<Rightarrow> 's Path list \<Rightarrow> CoverageIncreaseStats option \<Rightarrow> 's Path
                  \<Rightarrow> 's Path \<times> CoverageIncreaseStats option \<times> 's Coverer" where
  "bestLoop c [] best bestPath = (bestPath, best, c)"
| "bestLoop c (path # paths) best bestPath =
     (case EstimateCoverageIncrease c path of (est, c') \<Rightarrow>
        if MaxIncrease est = 0 then bestLoop c' paths best bestPath
        else (case best of
          None \<Rightarrow>
            if randomness c' \<ge> BestPathRandomAmongAnyPath then (path, Some est, c')
            else bestLoop c' paths (Some est) path
        | Some b \<Rightarrow>
            if MaxIncrease est < MaxIncrease b then bestLoop c' paths best bestPath
            else if MaxIncrease est > MaxIncrease b then bestLoop c' paths (Some est) path
            else if randomness c' = BestPathRandomAmongMaxCoverageIncrease
              then bestLoop c' paths best bestPath
            else if MaxStep est > MaxStep b then bestLoop c' paths best bestPath
            else if MaxStep est < MaxStep b then bestLoop c' paths (Some est) path
            else if randomness c' = BestPathRandomAmongFastestMaxCoverageIncrease
              then bestLoop c' paths best bestPath
            else if FirstStep est > FirstStep b then bestLoop c' paths best bestPath
            else if FirstStep est < FirstStep b then bestLoop c' paths (Some est) path
            else if FirstIncrease est < FirstIncrease b then bestLoop c' paths best bestPath
            else if FirstIncrease est > FirstIncrease b then bestLoop c' paths (Some est) path
            else bestLoop c' paths best bestPath))"

text \<open>
  \<^verbatim>\<open>BestPath\<close> returns the pair of the path and the statistics, \<open>([], None)\<close> for
  \<^verbatim>\<open>(nil, nil)\<close>, and the coverer as the call leaves it.
\<close>

definition BestPath :: "'s Coverer \<Rightarrow> 's Walkable \<Rightarrow> 's \<Rightarrow> nat
                          \<Rightarrow> ('s Path \<times> CoverageIncreaseStats option) \<times> 's Coverer" where
  "BestPath c m s maxLen =
     (let paths = Paths m s maxLen;
          (paths', c0) = (if randomness c \<noteq> BestPathRandomNone then ShufflePaths c paths else (paths, c))
      in case bestLoop c0 paths' None [] of
           (bestPath, best, c') \<Rightarrow>
             if length bestPath = 0 then (([], None), c') else ((bestPath, best), c'))"

text \<open>
  The ranking of the specification: higher \<open>MaxIncrease\<close>, then lower \<open>MaxStep\<close>,
  then lower \<open>FirstStep\<close>, then higher \<open>FirstIncrease\<close>.
\<close>

definition better :: "CoverageIncreaseStats \<Rightarrow> CoverageIncreaseStats \<Rightarrow> bool" where
  "better a b =
     (MaxIncrease a > MaxIncrease b \<or>
      (MaxIncrease a = MaxIncrease b \<and>
        (MaxStep a < MaxStep b \<or>
         (MaxStep a = MaxStep b \<and>
           (FirstStep a < FirstStep b \<or>
            (FirstStep a = FirstStep b \<and> FirstIncrease a > FirstIncrease b))))))"

text \<open>Auxiliary notions for the proofs about the enumerators.\<close>

definition prepend :: "'s Step \<Rightarrow> 's Path list \<Rightarrow> 's Path list" where
  "prepend step childPaths = (if childPaths = [] then [[step]] else map ((#) step) childPaths)"

definition fed :: "('a \<Rightarrow> 's PathBuf \<Rightarrow> 'a \<times> bool) \<Rightarrow> 'a \<Rightarrow> 's Path \<Rightarrow> 's Path list \<Rightarrow> 'a \<times> bool" where
  "fed yield acc pre ps = feed yield acc (map (\<lambda>p. map Some (pre @ p)) ps)"

definition branches :: "('s \<Rightarrow> 's Step list) \<Rightarrow> 's Step list \<Rightarrow> nat \<Rightarrow> 's Path list" where
  "branches nx steps k = concat (map (\<lambda>step. map ((#) step) (walk nx (EndState step) k)) steps)"

definition yielded :: "(bool \<times> 's PathBuf \<times> 'a) option \<Rightarrow> nat \<Rightarrow> nat \<Rightarrow> 's Path \<Rightarrow> 'a \<times> bool \<Rightarrow> bool" where
  "yielded res maxLen index pre F =
     (\<exists>path'. res = Some (snd F, path', fst F) \<and> length path' = maxLen \<and> take index path' = map Some pre)"

section \<open>The player model of the tests (model_test.go)\<close>

record PlayerState =
  playing :: bool
  song :: int

text \<open>Decimal rendering of an integer, as \<^verbatim>\<open>%v\<close> prints it.\<close>

fun digits :: "nat \<Rightarrow> string" where
  "digits n = (if n < 10 then [''0123456789'' ! n] else digits (n div 10) @ [''0123456789'' ! (n mod 10)])"

declare digits.simps [simp del]

definition show_int :: "int \<Rightarrow> string" where
  "show_int i = (if i < 0 then CHR ''-'' # digits (nat (- i)) else digits (nat i))"

definition PlayerState_String :: "PlayerState \<Rightarrow> string" where
  "PlayerState_String ps =
     ''{playing:'' @ (if playing ps then ''true'' else ''false'') @ '',song:'' @ show_int (song ps) @ ''}''"

definition play :: "PlayerState \<Rightarrow> PlayerState option" where
  "play s = (if playing s then None else Some \<lparr>playing = True, song = song s\<rparr>)"

definition pause :: "PlayerState \<Rightarrow> PlayerState option" where
  "pause s = (if \<not> playing s then None else Some \<lparr>playing = False, song = song s\<rparr>)"

definition nextsong :: "PlayerState \<Rightarrow> PlayerState option" where
  "nextsong s = (if song s \<ge> 3 then None else Some \<lparr>playing = playing s, song = song s + 1\<rparr>)"

definition prevsong :: "PlayerState \<Rightarrow> PlayerState option" where
  "prevsong s = (if song s \<le> 1 then None else Some \<lparr>playing = playing s, song = song s - 1\<rparr>)"

text \<open>
  The formats of the player's actions have no verb and no argument, where
  \<^verbatim>\<open>fmt.Sprintf\<close> returns the format itself.
\<close>

definition plainAction :: "string \<Rightarrow> Action" where
  "plainAction fmt = NewAction (\<lambda>f as. f) fmt []"

definition newPlayerModelWithRawTransitions :: "PlayerState Model" where
  "newPlayerModelWithRawTransitions =
     From NewModel (\<lambda>current.
       [NewTransition (plainAction ''play'') play,
        NewTransition (plainAction ''pause'') pause,
        NewTransition (plainAction ''nextsong'') nextsong,
        NewTransition (plainAction ''prevsong'') prevsong])"

definition startState :: PlayerState where
  "startState = \<lparr>playing = False, song = 1\<rparr>"

text \<open>A coverer of the player model that has covered \<open>play\<close> and \<open>pause\<close>.\<close>

definition coveredPlayPause :: "PlayerState Coverer" where
  "coveredPlayPause =
     UpdateCoverage (MarkCovered (\<lambda>old need. need) (CoverActions NewCoverer)
       [NewStep startState (plainAction ''play'') \<lparr>playing = True, song = 1\<rparr>,
        NewStep \<lparr>playing = True, song = 1\<rparr> (plainAction ''pause'') startState])"

definition playStep :: "PlayerState Step" where
  "playStep = NewStep startState (plainAction ''play'') \<lparr>playing = True, song = 1\<rparr>"

text \<open>The fresh coverer of \<^verbatim>\<open>TestCoverPlayerActions\<close>.\<close>

definition actionCoverer :: "PlayerState Coverer" where
  "actionCoverer = CoverActionCombinations NewCoverer 1"

definition pauseStep :: "PlayerState Step" where
  "pauseStep = NewStep \<lparr>playing = True, song = 1\<rparr> (plainAction ''pause'') startState"

definition nextsongStep :: "PlayerState Step" where
  "nextsongStep = NewStep startState (plainAction ''nextsong'') \<lparr>playing = False, song = 2\<rparr>"

definition prevsongStep :: "PlayerState Step" where
  "prevsongStep = NewStep \<lparr>playing = False, song = 2\<rparr> (plainAction ''prevsong'') startState"

section \<open>Notions of the statements and of their proofs\<close>

text \<open>
  \<open>firstBest E cands p\<close>: \<open>p\<close> is the optimal candidate enumerated earliest. Every
  candidate before it is strictly worse, and no candidate after it is better.
\<close>

definition firstBest :: "('p \<Rightarrow> CoverageIncreaseStats) \<Rightarrow> 'p list \<Rightarrow> 'p \<Rightarrow> bool" where
  "firstBest E cands p =
     (\<exists>pre post. cands = pre @ p # post \<and>
        (\<forall>q \<in> set pre. better (E p) (E q)) \<and> (\<forall>q \<in> set post. \<not> better (E q) (E p)))"

text \<open>The statistics alone, and the scan that keeps the first best candidate.\<close>

definition estimate :: "'s Coverer \<Rightarrow> 's Path \<Rightarrow> CoverageIncreaseStats" where
  "estimate c path = fst (EstimateCoverageIncrease c path)"

fun pick :: "('p \<Rightarrow> CoverageIncreaseStats) \<Rightarrow> 'p \<Rightarrow> 'p list \<Rightarrow> 'p" where
  "pick E cur [] = cur"
| "pick E cur (x # xs) = pick E (if better (E x) (E cur) then x else cur) xs"

text \<open>Two coverers that differ at most in the spare cells and in the generator.\<close>

definition sameView :: "'s Coverer \<Rightarrow> 's Coverer \<Rightarrow> bool" where
  "sameView c c' =
     (elems (coveredPath c) = elems (coveredPath c') \<and> coverCount c = coverCount c' \<and>
      covFuncs c = covFuncs c' \<and> historyLen c = historyLen c' \<and> randomness c = randomness c')"

text \<open>The candidates in the order in which \<^verbatim>\<open>BestPath\<close> scans them.\<close>

definition candidates :: "'s Coverer \<Rightarrow> 's Path list \<Rightarrow> 's Path list \<times> 's Coverer" where
  "candidates c paths = (if randomness c \<noteq> BestPathRandomNone then ShufflePaths c paths else (paths, c))"

subsection \<open>The coverers that the operations can produce\<close>

text \<open>
  A coverer is only ever built by \<^verbatim>\<open>NewCoverer\<close> and changed by the operations of
  cover.go (its fields are private). \<open>reachable\<close> is the set of coverers so obtained,
  with the built-in coverage functions registered in any combination and order.
\<close>

inductive reachable :: "('s \<Rightarrow> string) \<Rightarrow> (nat \<Rightarrow> nat \<Rightarrow> nat) \<Rightarrow> 's Coverer \<Rightarrow> bool"
  for str :: "'s \<Rightarrow> string" and growslice :: "nat \<Rightarrow> nat \<Rightarrow> nat" where
  new: "reachable str growslice NewCoverer"
| actions: "reachable str growslice c \<Longrightarrow> reachable str growslice (CoverActions c)"
| formats: "reachable str growslice c \<Longrightarrow> reachable str growslice (CoverActionFormats c)"
| actionCombinations:
    "reachable str growslice c \<Longrightarrow> reachable str growslice (CoverActionCombinations c combLenMax)"
| formatCombinations:
    "reachable str growslice c \<Longrightarrow> reachable str growslice (CoverActionFormatCombinations c combLenMax)"
| states: "reachable str growslice c \<Longrightarrow> reachable str growslice (CoverStates str c)"
| stateActions: "reachable str growslice c \<Longrightarrow> reachable str growslice (CoverStateActions str c)"
| stateCombinations:
    "reachable str growslice c \<Longrightarrow> reachable str growslice (CoverStateCombinations str c combLenMax)"
| update: "reachable str growslice c \<Longrightarrow> reachable str growslice (UpdateCoverage c)"
| mark: "reachable str growslice c \<Longrightarrow> reachable str growslice (MarkCovered growslice c steps)"
| random: "reachable str growslice c \<Longrightarrow> reachable str growslice (SetBestPathRandom newSource c seed rness)"
| estimated: "reachable str growslice c \<Longrightarrow> reachable str growslice (snd (EstimateCoverageIncrease c path))"
| searched: "reachable str growslice c \<Longrightarrow> reachable str growslice (snd (BestPath c m s maxLen))"

text \<open>
  A coverage function is monotone when extending a path never removes an item, and
  a coverer is consistent when its histogram is that of some of its coverage
  functions, the first registered, over a prefix of its covered path.
\<close>

definition monotone :: "('s Path \<Rightarrow> string list) \<Rightarrow> bool" where
  "monotone f = (\<forall>p q. set (f p) \<subseteq> set (f (p @ q)))"

definition consistent :: "'s Coverer \<Rightarrow> bool" where
  "consistent c =
     ((\<forall>f \<in> set (covFuncs c). monotone f) \<and>
      (\<exists>fs fs' p p'. covFuncs c = fs @ fs' \<and> elems (coveredPath c) = p @ p' \<and>
         Mapping.keys (coverCount c) = set (concat (map (\<lambda>f. f p) fs))))"

section \<open>Verification of the path enumerators\<close>

lemma foldl_append_concat: "foldl (\<lambda>acc x. acc @ f x) a xs = a @ concat (map f xs)"
  by (induction xs arbitrary: a) auto

lemma foldl_snoc_map: "foldl (\<lambda>acc x. acc @ [f x]) a xs = a @ map f xs"
  by (induction xs arbitrary: a) auto

lemma NewPath_eq [simp]: "NewPath steps = steps"
  unfolding NewPath_def using foldl_snoc_map [of "\<lambda>x. x" "[]" steps] by simp

lemma TransitionsFrom_concat: "TransitionsFrom m s = concat (map (\<lambda>g. g s) (gen m))"
  unfolding TransitionsFrom_def by (simp add: foldl_append_concat)




lemma Model_Paths_Suc:
  "Model_Paths m s (Suc n) =
     concat (map (\<lambda>step. prepend step (Model_Paths m (EndState step) n)) (Model_StepsFrom m s))"
proof -
  have "(\<lambda>paths step.
              let newPath = NewPath [step];
                  childPaths = Model_Paths m (EndState step) n
              in if length childPaths = 0 then paths @ [newPath]
                 else foldl (\<lambda>ps childPath. ps @ [newPath @ childPath]) paths childPaths)
     = (\<lambda>paths step. paths @ prepend step (Model_Paths m (EndState step) n))"
    by (auto simp: fun_eq_iff Let_def prepend_def foldl_snoc_map)
  then show ?thesis by (simp add: foldl_append_concat)
qed

lemma prepend_nonempty [simp]: "prepend step cps \<noteq> []"
  by (simp add: prepend_def)

lemma Model_Paths_empty_iff: "Model_Paths m s n = [] \<longleftrightarrow> n = 0 \<or> Model_StepsFrom m s = []"
  by (cases n) (auto simp: Model_Paths_Suc simp del: Model_Paths.simps(2))

lemma Model_Paths_no_empty_path: "p \<in> set (Model_Paths m s n) \<Longrightarrow> p \<noteq> []"
  by (cases n) (auto simp: Model_Paths_Suc prepend_def simp del: Model_Paths.simps(2) split: if_splits)

lemma walk_Model:
  "walk (Model_StepsFrom m) s n = (if Model_Paths m s n = [] then [[]] else Model_Paths m s n)"
proof (induction n arbitrary: s)
  case 0
  then show ?case by simp
next
  case (Suc n)
  have "map ((#) step) (walk (Model_StepsFrom m) (EndState step) n)
        = prepend step (Model_Paths m (EndState step) n)" for step
    by (simp add: Suc.IH prepend_def)
  then show ?case
    by (auto simp: Model_Paths_Suc simp del: Model_Paths.simps(2))
qed

lemma feed_append:
  "feed yield acc (xs @ ys) =
     (case feed yield acc xs of (a, go) \<Rightarrow> if go then feed yield a ys else (a, False))"
  by (induction xs arbitrary: acc) (auto split: prod.splits)

lemma fed_single: "fed yield acc pre [[]] = (fst (yield acc (map Some pre)), snd (yield acc (map Some pre)))"
  by (auto simp: fed_def split: prod.splits)

lemma fed_Nil: "fed yield acc pre [] = (acc, True)"
  by (simp add: fed_def)

lemma branches_Cons:
  "fed yield acc pre (branches nx (step # steps) k) =
     (case fed yield acc (pre @ [step]) (walk nx (EndState step) k) of
        (a, go) \<Rightarrow> if go then fed yield a pre (branches nx steps k) else (a, False))"
  by (simp add: fed_def branches_def feed_append o_def split: prod.splits)

lemma walk_branches:
  "index < maxLen \<Longrightarrow> nx s \<noteq> [] \<Longrightarrow> walk nx s (maxLen - index) = branches nx (nx s) (maxLen - Suc index)"
proof -
  assume a: "index < maxLen" "nx s \<noteq> []"
  then have "maxLen - index = Suc (maxLen - Suc index)" by arith
  then show ?thesis using a by (simp add: branches_def)
qed

lemma walk_dead_end: "nx s = [] \<Longrightarrow> walk nx s n = [[]]"
  by (cases n) auto

lemma yield_walk:
  "\<forall>pre. index \<le> maxLen \<and> length path = maxLen \<and> take index path = map Some pre \<longrightarrow>
     yielded (yieldPaths w yield path index s maxLen acc) maxLen index pre
       (fed yield acc pre (walk (nextSteps w) s (maxLen - index)))"
  "\<forall>pre. index < maxLen \<and> length path = maxLen \<and> take index path = map Some pre \<longrightarrow>
     yielded (yieldSteps w yield path index steps maxLen acc) maxLen index pre
       (fed yield acc pre (branches (nextSteps w) steps (maxLen - Suc index)))"
proof (induction w yield path index s maxLen acc and w yield path index steps maxLen acc
       rule: yieldPaths_yieldSteps.induct)
  case (1 w yield path index s maxLen acc)
  show ?case
  proof (intro allI impI, elim conjE)
    fix pre
    assume le: "index \<le> maxLen" and len: "length path = maxLen"
      and pre: "take index path = map Some pre"
    consider (full) "index = maxLen"
      | (dead) "index < maxLen" "nextSteps w s = []"
      | (more) "index < maxLen" "nextSteps w s \<noteq> []"
      using le by linarith
    then show "yielded (yieldPaths w yield path index s maxLen acc) maxLen index pre
       (fed yield acc pre (walk (nextSteps w) s (maxLen - index)))"
    proof cases
      case full
      then have "path = map Some pre" using len pre by simp
      then show ?thesis
        using full len pre by (auto simp: yielded_def fed_single split: prod.splits)
    next
      case dead
      then show ?thesis
        using len pre by (auto simp: yielded_def fed_single walk_dead_end split: prod.splits)
    next
      case more
      then have "yielded (yieldSteps w yield path index (nextSteps w s) maxLen acc) maxLen index pre
           (fed yield acc pre (branches (nextSteps w) (nextSteps w s) (maxLen - Suc index)))"
        using "1.IH" len pre by simp
      then show ?thesis
        using more by (simp add: walk_branches)
    qed
  qed
next
  case (2 w yield path index maxLen acc)
  then show ?case by (simp add: yielded_def branches_def fed_Nil)
next
  case (3 w yield path index step steps maxLen acc)
  show ?case
  proof (intro allI impI, elim conjE)
    fix pre
    assume lt: "index < maxLen" and len: "length path = maxLen"
      and pre: "take index path = map Some pre"
    let ?path1 = "path[index := Some step]"
    let ?F1 = "fed yield acc (pre @ [step]) (walk (nextSteps w) (EndState step) (maxLen - Suc index))"
    have pre1: "take (index + 1) ?path1 = map Some (pre @ [step])"
      using lt len pre by (simp add: take_Suc_conv_app_nth)
    have "yielded (yieldPaths w yield ?path1 (index + 1) (EndState step) maxLen acc) maxLen (index + 1)
            (pre @ [step]) ?F1"
      using "3.IH"(1) lt len pre1 by simp
    then obtain path' where
      r1: "yieldPaths w yield ?path1 (index + 1) (EndState step) maxLen acc = Some (snd ?F1, path', fst ?F1)"
      and len': "length path' = maxLen"
      and pre': "take (index + 1) path' = map Some (pre @ [step])"
      by (auto simp: yielded_def)
    have pre'': "take index path' = map Some pre"
    proof -
      have "take index (take (index + 1) path') = take index (map Some (pre @ [step]))"
        using pre' by simp
      moreover have "length pre = index"
        using pre lt len by (metis length_map length_take less_or_eq_imp_le min.absorb2)
      ultimately show ?thesis by (simp add: min_def)
    qed
    show "yielded (yieldSteps w yield path index (step # steps) maxLen acc) maxLen index pre
       (fed yield acc pre (branches (nextSteps w) (step # steps) (maxLen - Suc index)))"
    proof (cases "snd ?F1")
      case False
      then show ?thesis
        using lt r1 len' pre''
        by (auto simp: yielded_def branches_Cons split: prod.splits)
    next
      case True
      have "yielded (yieldSteps w yield path' index steps maxLen (fst ?F1)) maxLen index pre
              (fed yield (fst ?F1) pre (branches (nextSteps w) steps (maxLen - Suc index)))"
        using "3.IH"(2) [OF _ r1 refl refl] True lt len' pre'' by simp
      then show ?thesis
        using lt r1 True
        by (auto simp: yielded_def branches_Cons split: prod.splits)
    qed
  qed
qed

lemma feed_collect: "feed (\<lambda>paths path. (paths @ [path], True)) acc xs = (acc @ xs, True)"
  by (induction xs arbitrary: acc) auto

lemma IterPaths_feed:
  "\<exists>buf. IterPaths w s maxLen yield acc =
     Some (snd (feed yield acc (map (map Some) (walk (nextSteps w) s maxLen))), buf,
           fst (feed yield acc (map (map Some) (walk (nextSteps w) s maxLen))))"
  using yield_walk(1) [of 0 maxLen "replicate maxLen None" w yield s acc]
  by (auto simp: yielded_def fed_def IterPaths_def)

lemma Walker_Paths_walk: "Walker_Paths w s maxLen = Some (map (map Some) (walk (nextSteps w) s maxLen))"
  using IterPaths_feed [of w s maxLen "\<lambda>paths path. (paths @ [path], True)" "[]"]
  by (auto simp: Walker_Paths_def feed_collect)

lemma nextSteps_NewWalker [simp]: "nextSteps (NewWalker (Model_Walkable m)) = Model_StepsFrom m"
  by (auto simp: nextSteps_def NewWalker_def Model_Walkable_def fun_eq_iff)

lemma selectsD: "selects f \<Longrightarrow> x \<in> set (f xs) \<Longrightarrow> x \<in> set xs"
  by (auto simp: selects_def)

lemma selects_Nil: "selects f \<Longrightarrow> f [] = []"
  using selectsD [of f _ "[]"] by (cases "f []") auto





text \<open>
  Claim C5, as the code has it. From a state with no applicable transition, and for
  every depth, \<^verbatim>\<open>Walker.Paths\<close> returns exactly one path, the empty one, with no
  step filter and with any filter that selects among the steps it is given;
  \<^verbatim>\<open>Model.Paths\<close> returns no path at all (\<^verbatim>\<open>nil\<close>), by its explicit
  \<^verbatim>\<open>if len(paths) == 0 { return nil }\<close>.
\<close>

theorem dead_end_truncation:
  "Model_StepsFrom m s = [] \<Longrightarrow>
     Model_Paths m s maxLen = [] \<and>
     Walker_Paths (NewWalker (Model_Walkable m)) s maxLen = Some [[]] \<and>
     (selects f \<longrightarrow> Walker_Paths (SetStepFilter (NewWalker (Model_Walkable m)) f) s maxLen = Some [[]])"
proof (intro conjI impI)
  assume dead: "Model_StepsFrom m s = []"
  show "Model_Paths m s maxLen = []"
    using dead by (simp add: Model_Paths_empty_iff)
  show "Walker_Paths (NewWalker (Model_Walkable m)) s maxLen = Some [[]]"
    using dead by (simp add: Walker_Paths_walk walk_dead_end)
  assume "selects f"
  then have "nextSteps (SetStepFilter (NewWalker (Model_Walkable m)) f) s = []"
    using dead by (simp add: nextSteps_def SetStepFilter_def NewWalker_def Model_Walkable_def selects_Nil)
  then show "Walker_Paths (SetStepFilter (NewWalker (Model_Walkable m)) f) s maxLen = Some [[]]"
    by (simp add: Walker_Paths_walk walk_dead_end)
qed

lemma selects_id: "selects (\<lambda>steps. steps)"
  by (simp add: selects_def)

lemma NewModel_dead: "Model_StepsFrom NewModel s = []"
  by (simp add: Model_StepsFrom_def TransitionsFrom_def NewModel_def)

theorem dead_end_truncation_witness:
  "Model_StepsFrom NewModel (0::nat) = [] \<and>
   Model_Paths NewModel (0::nat) 3 = [] \<and>
   Walker_Paths (NewWalker (Model_Walkable NewModel)) (0::nat) 3 = Some [[]] \<and>
   selects (\<lambda>steps::nat Step list. steps) \<and>
   Walker_Paths (SetStepFilter (NewWalker (Model_Walkable NewModel)) (\<lambda>steps. steps)) (0::nat) 3 = Some [[]]"
  using dead_end_truncation [OF NewModel_dead, of "0::nat" 3 "\<lambda>steps. steps"]
  by (simp add: selects_id NewModel_dead)

text \<open>
  The claim as stated fails for \<^verbatim>\<open>Model.Paths\<close>: the model without generators has
  no step anywhere, and its paths of depth three are not the one empty path.
\<close>

theorem dead_end_Model_Paths_counterexample:
  "Model_StepsFrom NewModel (0::nat) = [] \<and> Model_Paths NewModel (0::nat) 3 \<noteq> [[]]"
  by (simp add: NewModel_dead Model_Paths_empty_iff [THEN iffD2])

text \<open>
  Claim C10, as the code has it. With no step filter, \<^verbatim>\<open>Walker.Paths\<close> returns the
  sequence of \<^verbatim>\<open>Model.Paths\<close> whenever that sequence is not empty, and the single
  empty path when it is empty, which is exactly when \<open>maxLen = 0\<close> or the state has
  no applicable step. So the two enumerators disagree on the empty path and agree
  everywhere else.
\<close>

theorem Walker_Paths_Model_Paths:
  "Walker_Paths (NewWalker (Model_Walkable m)) s maxLen =
     Some (map (map Some) (if Model_Paths m s maxLen = [] then [[]] else Model_Paths m s maxLen)) \<and>
   (Model_Paths m s maxLen = [] \<longleftrightarrow> maxLen = 0 \<or> Model_StepsFrom m s = [])"
  by (simp add: Walker_Paths_walk walk_Model Model_Paths_empty_iff)

text \<open>At depth zero the two enumerators differ on the player model.\<close>

theorem Walker_Paths_Model_Paths_counterexample:
  "Walker_Paths (NewWalker (Model_Walkable newPlayerModelWithRawTransitions)) startState 0
     \<noteq> Some (map (map Some) (Model_Paths newPlayerModelWithRawTransitions startState 0))"
  by (simp add: Walker_Paths_walk)


theorem Walker_Paths_Model_Paths_witness:
  "Walker_Paths (NewWalker (Model_Walkable newPlayerModelWithRawTransitions)) startState 1 =
     Some (map (map Some) (Model_Paths newPlayerModelWithRawTransitions startState 1)) \<and>
   Model_StepsFrom newPlayerModelWithRawTransitions startState \<noteq> []"
proof -
  have steps: "Model_StepsFrom newPlayerModelWithRawTransitions startState \<noteq> []"
    by code_simp
  then have "Model_Paths newPlayerModelWithRawTransitions startState 1 \<noteq> []"
    unfolding Model_Paths_empty_iff by simp
  then show ?thesis
    using Walker_Paths_Model_Paths [of newPlayerModelWithRawTransitions startState 1] steps
    by (simp del: Model_Paths.simps)
qed




section \<open>Verification of the coverer\<close>

lemma keys_incr [simp]: "Mapping.keys (incr m s) = insert s (Mapping.keys m)"
  by (simp add: incr_def)

lemma keys_countNew:
  "Mapping.keys (countNew covered m xs) = Mapping.keys m \<union> {x \<in> set xs. count covered x = 0}"
  unfolding countNew_def
  by (induction xs arbitrary: m) auto

lemma len_card: "finite (Mapping.keys m) \<Longrightarrow> len m = int (card (Mapping.keys m))"
  by (simp add: len_def Mapping.size_def)

lemma len_countNew_empty:
  "len (countNew covered Mapping.empty xs) = int (card {x \<in> set xs. count covered x = 0})"
  by (simp add: len_card keys_countNew)

lemma len_nonneg: "0 \<le> len m"
  by (simp add: len_def)

lemma estimateLoop_MaxIncrease:
  "MaxIncrease (estimateLoop c pwh h i fcc est) = MaxIncrease est"
proof (induction c pwh h i fcc est rule: estimateLoop.induct)
  case (1 c pwh h i fcc est)
  show ?case
    apply (subst estimateLoop.simps)
    using 1 by (auto simp: Let_def)
qed

lemma contextPrefix_drop:
  "contextPrefix c = drop (length (elems (coveredPath c))
       - (if historyLen c > length (elems (coveredPath c)) then length (elems (coveredPath c)) else historyLen c))
     (elems (coveredPath c))"
  by (auto simp: contextPrefix_def Let_def take_rev min_def)

lemma covFunc_touched [simp]: "covFunc (touched c path) = covFunc c"
  by (simp add: covFunc_def touched_def fun_eq_iff)

lemma Estimate_unfold:
  "EstimateCoverageIncrease c path =
     (estimateLoop (touched c path) (contextPrefix c @ path)
        (min (historyLen c) (length (elems (coveredPath c))))
        (min (historyLen c) (length (elems (coveredPath c)))) Mapping.empty
        \<lparr>MaxStep = - 1,
         MaxIncrease = len (countNew (coverCount c) Mapping.empty (covFunc c (contextPrefix c @ path))),
         FirstStep = - 1, FirstIncrease = 0\<rparr>,
      touched c path)"
proof -
  have cc: "coverCount (touched c path) = coverCount c"
    by (simp add: touched_def)
  have m: "(if historyLen c > length (elems (coveredPath c)) then length (elems (coveredPath c)) else historyLen c)
        = min (historyLen c) (length (elems (coveredPath c)))"
    by (simp add: min_def)
  show ?thesis
    unfolding EstimateCoverageIncrease_def Let_def touched_def [symmetric] contextPrefix_drop m
    by (simp add: cc)
qed

lemma MaxIncrease_card:
  "MaxIncrease (fst (EstimateCoverageIncrease c path)) =
     int (card {x \<in> set (covFunc c (contextPrefix c @ path)). count (coverCount c) x = 0})"
  by (simp add: Estimate_unfold estimateLoop_MaxIncrease len_countNew_empty)

text \<open>
  Claim C2. \<open>MaxIncrease\<close> is the number of distinct items that the registered
  coverage functions produce over the context prefix followed by the candidate and
  that have zero count in the current histogram.
\<close>

theorem MaxIncrease_is_new_items:
  "MaxIncrease (fst (EstimateCoverageIncrease c path)) =
     int (card {x \<in> set (covFunc c (contextPrefix c @ path)). count (coverCount c) x = 0})"
  by (rule MaxIncrease_card)

text \<open>
  Claim C8. \<^verbatim>\<open>EstimateCoverageIncrease\<close> leaves the coverer observably unchanged:
  the elements and the capacity of \<^verbatim>\<open>coveredPath\<close>, \<^verbatim>\<open>coverCount\<close>, the coverage
  functions, \<^verbatim>\<open>historyLen\<close>, the generator and the randomness level are what they
  were. Only cells of the backing array beyond the length of \<^verbatim>\<open>coveredPath\<close> may
  have been written.
\<close>

theorem Estimate_frame:
  "elems (coveredPath (snd (EstimateCoverageIncrease c path))) = elems (coveredPath c) \<and>
   cap (coveredPath (snd (EstimateCoverageIncrease c path))) = cap (coveredPath c) \<and>
   coverCount (snd (EstimateCoverageIncrease c path)) = coverCount c \<and>
   covFuncs (snd (EstimateCoverageIncrease c path)) = covFuncs c \<and>
   historyLen (snd (EstimateCoverageIncrease c path)) = historyLen c \<and>
   rand (snd (EstimateCoverageIncrease c path)) = rand c \<and>
   randomness (snd (EstimateCoverageIncrease c path)) = randomness c"
  by (simp add: Estimate_unfold touched_def cap_def cells_after_append_def)

text \<open>What the call does change: the spare cells, when the candidate fits them.\<close>

lemma Estimate_writes_spare:
  "spare (coveredPath (snd (EstimateCoverageIncrease c path)))
     = cells_after_append (spare (coveredPath c)) path"
  by (simp add: Estimate_unfold touched_def)


lemma length_contextPrefix: "length (contextPrefix c) = min (historyLen c) (length (elems (coveredPath c)))"
  by (simp add: contextPrefix_def Let_def)

lemma noNewItems_at:
  "noNewItems c path \<Longrightarrow> i < length path \<Longrightarrow>
     {x \<in> set (covFunc c (contextPrefix c @ take (Suc i) path)). count (coverCount c) x = 0} = {}"
  by (auto simp: noNewItems_def list_all_iff)

lemma no_new_items_result:
  assumes "noNewItems c path"
  shows "fst (EstimateCoverageIncrease c path) =
           \<lparr>MaxStep = (if path = [] then - 1 else 0),
            MaxIncrease = (if path = [] then len (countNew (coverCount c) Mapping.empty (covFunc c (contextPrefix c)))
                           else 0),
            FirstStep = - 1, FirstIncrease = 0\<rparr>"
proof (cases "path = []")
  case True
  then show ?thesis
    by (simp add: Estimate_unfold estimateLoop.simps length_contextPrefix)
next
  case False
  let ?h = "min (historyLen c) (length (elems (coveredPath c)))"
  have full: "{x \<in> set (covFunc c (contextPrefix c @ path)). count (coverCount c) x = 0} = {}"
    using noNewItems_at [OF assms, of "length path - 1"] False by simp
  have first: "{x \<in> set (covFunc c (contextPrefix c @ take (Suc 0) path)). count (coverCount c) x = 0} = {}"
    using noNewItems_at [OF assms, of 0] False by simp
  have cc: "coverCount (touched c path) = coverCount c"
    by (simp add: touched_def)
  have lt: "?h < length (contextPrefix c @ path)"
    using False by (simp add: length_contextPrefix)
  have tk: "take (?h + 1) (contextPrefix c @ path) = contextPrefix c @ take (Suc 0) path"
    by (simp add: length_contextPrefix)
  show ?thesis
    unfolding Estimate_unfold fst_conv
    apply (subst estimateLoop.simps)
    unfolding tk Let_def
    using False lt
    by (simp add: len_countNew_empty full first cc)
qed

text \<open>
  Claim C3, as the code has it. When no step of the candidate yields a new coverage
  item, \<open>FirstStep\<close> is \<open>-1\<close> and \<open>FirstIncrease\<close> is 0. For a non-empty candidate
  \<open>MaxIncrease\<close> is 0 and \<open>MaxStep\<close> is 0, not \<open>-1\<close>: the first iteration finds the
  count of new items, 0, equal to \<open>MaxIncrease\<close>, sets \<open>MaxStep\<close> and breaks.
  \<open>MaxStep\<close> is \<open>-1\<close> for the empty candidate, where the loop does not run.
\<close>

theorem no_new_items_stats:
  "noNewItems c path \<Longrightarrow>
     FirstStep (fst (EstimateCoverageIncrease c path)) = - 1 \<and>
     FirstIncrease (fst (EstimateCoverageIncrease c path)) = 0 \<and>
     (path \<noteq> [] \<longrightarrow> MaxIncrease (fst (EstimateCoverageIncrease c path)) = 0 \<and>
                    MaxStep (fst (EstimateCoverageIncrease c path)) = 0) \<and>
     (path = [] \<longrightarrow> MaxStep (fst (EstimateCoverageIncrease c path)) = - 1)"
  using no_new_items_result [of c path] by auto

lemma noNewItems_playStep: "noNewItems coveredPlayPause [playStep]"
  by code_simp

theorem no_new_items_stats_witness:
  "noNewItems coveredPlayPause [playStep] \<and>
   FirstStep (fst (EstimateCoverageIncrease coveredPlayPause [playStep])) = - 1 \<and>
   FirstIncrease (fst (EstimateCoverageIncrease coveredPlayPause [playStep])) = 0 \<and>
   MaxIncrease (fst (EstimateCoverageIncrease coveredPlayPause [playStep])) = 0 \<and>
   MaxStep (fst (EstimateCoverageIncrease coveredPlayPause [playStep])) = 0"
  using no_new_items_stats [OF noNewItems_playStep] noNewItems_playStep by simp

text \<open>
  The claim as stated fails: \<open>play\<close> is covered, the candidate is the step \<open>play\<close>,
  no step of it yields a new item, and \<open>MaxStep\<close> is not \<open>-1\<close>.
\<close>

theorem no_new_items_MaxStep_counterexample:
  "noNewItems coveredPlayPause [playStep] \<and>
   \<not> (FirstStep (fst (EstimateCoverageIncrease coveredPlayPause [playStep])) = - 1 \<and>
      MaxStep (fst (EstimateCoverageIncrease coveredPlayPause [playStep])) = - 1 \<and>
      MaxIncrease (fst (EstimateCoverageIncrease coveredPlayPause [playStep])) = 0)"
  by (simp add: noNewItems_playStep no_new_items_result)



subsection \<open>BestPath\<close>

lemma estimateLoop_cong:
  "covFuncs c = covFuncs c' \<Longrightarrow> coverCount c = coverCount c' \<Longrightarrow>
     estimateLoop c pwh h i fcc est = estimateLoop c' pwh h i fcc est"
proof (induction c pwh h i fcc est rule: estimateLoop.induct)
  case (1 c pwh h i fcc est)
  have cf: "covFunc c = covFunc c'"
    using "1.prems" by (simp add: covFunc_def fun_eq_iff)
  show ?case
    apply (subst estimateLoop.simps)
    apply (subst (2) estimateLoop.simps)
    using 1 cf by (simp add: Let_def)
qed

lemma sameView_refl [simp]: "sameView c c"
  by (simp add: sameView_def)

lemma sameView_trans: "sameView a b \<Longrightarrow> sameView b c \<Longrightarrow> sameView a c"
  by (simp add: sameView_def)

lemma sameView_touched: "sameView c (touched c path)"
  by (simp add: sameView_def touched_def)

lemma sameView_Estimate: "sameView c (snd (EstimateCoverageIncrease c path))"
  by (simp add: Estimate_unfold sameView_touched)

lemma contextPrefix_sameView: "sameView c c' \<Longrightarrow> contextPrefix c = contextPrefix c'"
  by (simp add: sameView_def contextPrefix_def)

lemma estimate_sameView: "sameView c c' \<Longrightarrow> estimate c path = estimate c' path"
proof -
  assume v: "sameView c c'"
  have cf: "covFunc c = covFunc c'"
    using v by (simp add: covFunc_def fun_eq_iff sameView_def)
  have "estimateLoop (touched c path) = estimateLoop (touched c' path)"
    using v by (intro ext estimateLoop_cong) (simp_all add: touched_def sameView_def)
  then show ?thesis
    using v cf contextPrefix_sameView [OF v]
    by (simp add: estimate_def Estimate_unfold sameView_def)
qed

lemma Estimate_pair:
  "sameView c c0 \<Longrightarrow> EstimateCoverageIncrease c0 path = (estimate c path, snd (EstimateCoverageIncrease c0 path))"
  using estimate_sameView [of c c0 path]
  by (simp add: estimate_def prod_eq_iff)

lemma better_trans: "better a b \<Longrightarrow> better b c \<Longrightarrow> better a c"
  by (auto simp: better_def)

lemma better_neg_trans: "better a b \<Longrightarrow> \<not> better c b \<Longrightarrow> better a c"
  by (auto simp: better_def)

lemma firstBestI:
  "cands = pre @ p # post \<Longrightarrow> (\<forall>q \<in> set pre. better (E p) (E q)) \<Longrightarrow>
     (\<forall>q \<in> set post. \<not> better (E q) (E p)) \<Longrightarrow> firstBest E cands p"
  unfolding firstBest_def by blast

lemma pick_firstBest: "firstBest E (cur # xs) (pick E cur xs)"
proof (induction xs arbitrary: cur)
  case Nil
  show ?case
    by (rule firstBestI [of _ "[]" _ "[]"]) simp_all
next
  case (Cons x xs)
  show ?case
  proof (cases "better (E x) (E cur)")
    case True
    define r where "r = pick E x xs"
    obtain pre post where d: "x # xs = pre @ r # post"
      and b: "\<forall>q \<in> set pre. better (E r) (E q)" and a: "\<forall>q \<in> set post. \<not> better (E q) (E r)"
      using Cons.IH [of x] unfolding firstBest_def r_def by blast
    have "better (E r) (E cur)"
    proof (cases pre)
      case Nil
      then have "r = x" using d by simp
      then show ?thesis using True by simp
    next
      case (Cons y ys)
      then have "x \<in> set pre" using d by simp
      then have "better (E r) (E x)" using b by blast
      then show ?thesis using True by (rule better_trans)
    qed
    then have 1: "\<forall>q \<in> set (cur # pre). better (E r) (E q)" using b by simp
    have 2: "cur # x # xs = (cur # pre) @ r # post" using d by simp
    have "firstBest E (cur # x # xs) r"
      using 2 1 a by (rule firstBestI)
    then show ?thesis using True by (simp add: r_def)
  next
    case False
    define r where "r = pick E cur xs"
    obtain pre post where d: "cur # xs = pre @ r # post"
      and b: "\<forall>q \<in> set pre. better (E r) (E q)" and a: "\<forall>q \<in> set post. \<not> better (E q) (E r)"
      using Cons.IH [of cur] unfolding firstBest_def r_def by blast
    have "firstBest E (cur # x # xs) r"
    proof (cases pre)
      case Nil
      then have r: "r = cur" and p: "post = xs" using d by simp_all
      have 2: "cur # x # xs = [] @ r # (x # xs)" using r by simp
      have 3: "\<forall>q \<in> set (x # xs). \<not> better (E q) (E r)"
        using a False r p by simp
      show ?thesis
        using 2 _ 3 by (rule firstBestI) simp
    next
      case (Cons y ys)
      then have y: "y = cur" and xs: "xs = ys @ r # post" using d by simp_all
      have bc: "better (E r) (E cur)" using b Cons y by simp
      then have bx: "better (E r) (E x)" using False by (rule better_neg_trans)
      have 2: "cur # x # xs = (cur # x # ys) @ r # post" using xs by simp
      have 1: "\<forall>q \<in> set (cur # x # ys). better (E r) (E q)"
        using b Cons y bx by simp
      show ?thesis
        using 2 1 a by (rule firstBestI)
    qed
    then show ?thesis using False by (simp add: r_def)
  qed
qed

lemma bestLoop_keep_or_take:
  assumes "sameView c c0"
  shows "\<exists>c'. sameView c c' \<and>
           (bestLoop c0 paths best bp = (bp, best, c') \<or>
            (\<exists>p \<in> set paths. MaxIncrease (estimate c p) \<noteq> 0 \<and>
               bestLoop c0 paths best bp = (p, Some (estimate c p), c')))"
  using assms
proof (induction paths arbitrary: c0 best bp)
  case Nil
  then show ?case by simp
next
  case (Cons path paths)
  define c1 where "c1 = snd (EstimateCoverageIncrease c0 path)"
  have e: "EstimateCoverageIncrease c0 path = (estimate c path, c1)"
    unfolding c1_def using Cons.prems by (rule Estimate_pair)
  have v1: "sameView c c1"
    unfolding c1_def using Cons.prems sameView_Estimate by (rule sameView_trans)
  note keep = Cons.IH [OF v1, of best bp]
  note take = Cons.IH [OF v1, of "Some (estimate c path)" path]
  show ?case
  proof (cases "MaxIncrease (estimate c path) = 0")
    case True
    then show ?thesis using keep e by auto
  next
    case False
    have k: "bestLoop c0 (path # paths) best bp = bestLoop c1 paths best bp \<Longrightarrow> ?thesis"
      using keep by auto
    have t: "bestLoop c0 (path # paths) best bp = bestLoop c1 paths (Some (estimate c path)) path \<Longrightarrow> ?thesis"
      using take False by auto
    have s: "bestLoop c0 (path # paths) best bp = (path, Some (estimate c path), c1) \<Longrightarrow> ?thesis"
      using v1 False by auto
    show ?thesis
    proof (cases best)
      case None
      then show ?thesis using e False t s by (simp split: if_splits)
    next
      case (Some b)
      then show ?thesis using e False k t by (simp split: if_splits)
    qed
  qed
qed

lemma Shuffle_mset: "i < length xs \<or> i = 0 \<Longrightarrow> mset (fst (Shuffle r i xs)) = mset xs"
proof (induction i arbitrary: r xs)
  case 0
  then show ?case by simp
next
  case (Suc i)
  define j where "j = draws r (pos r) mod (Suc i + 1)"
  have lt: "Suc i < length xs" using Suc.prems by simp
  have "j < Suc i + 1" unfolding j_def by (rule mod_less_divisor) simp
  then have j: "j < length xs" using lt by linarith
  have sw: "mset (swap (Suc i) j xs) = mset xs"
    unfolding swap_def using mset_swap [OF j lt] by simp
  have len: "length (swap (Suc i) j xs) = length xs"
    by (simp add: swap_def)
  have "mset (fst (Shuffle (r\<lparr>pos := pos r + 1\<rparr>) i (swap (Suc i) j xs))) = mset (swap (Suc i) j xs)"
    by (rule Suc.IH) (use lt len in simp)
  then show ?case
    using sw by (simp add: Intn_def j_def)
qed

lemma ShufflePaths_set: "set (fst (ShufflePaths c paths)) = set paths"
proof (cases "rand c")
  case None
  then show ?thesis by (simp add: ShufflePaths_def)
next
  case (Some r)
  have "mset (fst (Shuffle r (length paths - 1) paths)) = mset paths"
    by (rule Shuffle_mset) (cases paths; simp)
  then have st: "set (fst (Shuffle r (length paths - 1) paths)) = set paths"
    by (rule mset_eq_setD)
  obtain paths' r' where sh: "Shuffle r (length paths - 1) paths = (paths', r')"
    by (cases "Shuffle r (length paths - 1) paths")
  then have "set paths' = set paths" using st by simp
  then show ?thesis using Some sh by (simp add: ShufflePaths_def)
qed

lemma ShufflePaths_sameView: "sameView c (snd (ShufflePaths c paths))"
  by (simp add: ShufflePaths_def sameView_def split: option.splits prod.splits)

lemma estimate_MaxIncrease_nonneg: "0 \<le> MaxIncrease (estimate c p)"
  by (simp add: estimate_def MaxIncrease_card)

lemma candidates_set: "set (fst (candidates c paths)) = set paths"
  by (simp add: candidates_def ShufflePaths_set)

lemma candidates_sameView: "sameView c (snd (candidates c paths))"
  by (simp add: candidates_def ShufflePaths_sameView)

lemma BestPath_unfold:
  "fst (BestPath c m s maxLen) =
     (case bestLoop (snd (candidates c (Paths m s maxLen))) (fst (candidates c (Paths m s maxLen))) None [] of
        (bestPath, best, c') \<Rightarrow> if bestPath = [] then ([], None) else (bestPath, best))"
  by (simp add: BestPath_def candidates_def Let_def split: prod.splits)

lemma BestPath_cases:
  "fst (BestPath c m s maxLen) = ([], None) \<or>
   (\<exists>p \<in> set (Paths m s maxLen). p \<noteq> [] \<and> MaxIncrease (estimate c p) \<noteq> 0 \<and>
      fst (BestPath c m s maxLen) = (p, Some (estimate c p)))"
proof -
  let ?c0 = "snd (candidates c (Paths m s maxLen))"
  let ?ps = "fst (candidates c (Paths m s maxLen))"
  obtain c' where
    "bestLoop ?c0 ?ps None [] = ([], None, c') \<or>
     (\<exists>p \<in> set ?ps. MaxIncrease (estimate c p) \<noteq> 0 \<and> bestLoop ?c0 ?ps None [] = (p, Some (estimate c p), c'))"
    using bestLoop_keep_or_take [OF candidates_sameView, of c "Paths m s maxLen" ?ps None "[]"] by blast
  then show ?thesis
  proof
    assume "bestLoop ?c0 ?ps None [] = ([], None, c')"
    then show ?thesis by (simp add: BestPath_unfold)
  next
    assume "\<exists>p \<in> set ?ps. MaxIncrease (estimate c p) \<noteq> 0 \<and> bestLoop ?c0 ?ps None [] = (p, Some (estimate c p), c')"
    then obtain p where p: "p \<in> set ?ps" "MaxIncrease (estimate c p) \<noteq> 0"
      and b: "bestLoop ?c0 ?ps None [] = (p, Some (estimate c p), c')" by blast
    have "p \<in> set (Paths m s maxLen)" using p(1) by (simp add: candidates_set)
    then show ?thesis using p(2) b by (cases "p = []") (auto simp: BestPath_unfold)
  qed
qed

text \<open>
  Claim C4. For every coverer (whatever its randomness level and generator), every
  walkable model, state and depth: \<^verbatim>\<open>BestPath\<close> returns either \<^verbatim>\<open>(nil, nil)\<close> or
  one of the enumerated paths together with its statistics, and then its estimated
  \<open>MaxIncrease\<close> is positive; and when every enumerated candidate has
  \<open>MaxIncrease = 0\<close> (in particular when there is none) it returns \<^verbatim>\<open>(nil, nil)\<close>.
\<close>

theorem BestPath_never_zero_increase:
  "(fst (BestPath c m s maxLen) = ([], None) \<or>
    (\<exists>p \<in> set (Paths m s maxLen).
       fst (BestPath c m s maxLen) = (p, Some (estimate c p)) \<and> 0 < MaxIncrease (estimate c p))) \<and>
   ((\<forall>p \<in> set (Paths m s maxLen). MaxIncrease (estimate c p) = 0)
      \<longrightarrow> fst (BestPath c m s maxLen) = ([], None))"
proof -
  have nn: "MaxIncrease (estimate c p) \<noteq> 0 \<Longrightarrow> 0 < MaxIncrease (estimate c p)" for p
    using estimate_MaxIncrease_nonneg [of c p] by simp
  show ?thesis
    using BestPath_cases [of c m s maxLen] nn by blast
qed

lemma bestLoop_pick:
  assumes "sameView c c0" and "randomness c = BestPathRandomNone"
  shows "\<exists>c'. bestLoop c0 paths (Some (estimate c bp)) bp =
           (pick (estimate c) bp (filter (\<lambda>p. MaxIncrease (estimate c p) \<noteq> 0) paths),
            Some (estimate c (pick (estimate c) bp (filter (\<lambda>p. MaxIncrease (estimate c p) \<noteq> 0) paths))), c')"
  using assms(1)
proof (induction paths arbitrary: c0 bp)
  case Nil
  then show ?case by simp
next
  case (Cons path paths)
  define c1 where "c1 = snd (EstimateCoverageIncrease c0 path)"
  have e: "EstimateCoverageIncrease c0 path = (estimate c path, c1)"
    unfolding c1_def using Cons.prems by (rule Estimate_pair)
  have v1: "sameView c c1"
    unfolding c1_def using Cons.prems sameView_Estimate by (rule sameView_trans)
  have r: "randomness c1 = 0"
    using v1 assms(2) by (simp add: sameView_def BestPathRandomNone_def)
  note keep = Cons.IH [OF v1, of bp]
  note take = Cons.IH [OF v1, of path]
  show ?case
  proof (cases "MaxIncrease (estimate c path) = 0")
    case True
    then show ?thesis using keep e by simp
  next
    case False
    show ?thesis
    proof (cases "better (estimate c path) (estimate c bp)")
      case True
      then have "bestLoop c0 (path # paths) (Some (estimate c bp)) bp
                   = bestLoop c1 paths (Some (estimate c path)) path"
        using e False r
        by (auto simp: better_def BestPathRandomAmongMaxCoverageIncrease_def
            BestPathRandomAmongFastestMaxCoverageIncrease_def)
      then show ?thesis using take True False by simp
    next
      case b: False
      then have "bestLoop c0 (path # paths) (Some (estimate c bp)) bp
                   = bestLoop c1 paths (Some (estimate c bp)) bp"
        using e False r
        by (auto simp: better_def BestPathRandomAmongMaxCoverageIncrease_def
            BestPathRandomAmongFastestMaxCoverageIncrease_def)
      then show ?thesis using keep b False by simp
    qed
  qed
qed

lemma bestLoop_None_pick:
  assumes "sameView c c0" and "randomness c = BestPathRandomNone"
  shows "\<exists>c'. bestLoop c0 paths None [] =
          (case filter (\<lambda>p. MaxIncrease (estimate c p) \<noteq> 0) paths of
             [] \<Rightarrow> ([], None, c')
           | p # ps \<Rightarrow> (pick (estimate c) p ps, Some (estimate c (pick (estimate c) p ps)), c'))"
  using assms(1)
proof (induction paths arbitrary: c0)
  case Nil
  then show ?case by simp
next
  case (Cons path paths)
  define c1 where "c1 = snd (EstimateCoverageIncrease c0 path)"
  have e: "EstimateCoverageIncrease c0 path = (estimate c path, c1)"
    unfolding c1_def using Cons.prems by (rule Estimate_pair)
  have v1: "sameView c c1"
    unfolding c1_def using Cons.prems sameView_Estimate by (rule sameView_trans)
  have r: "randomness c1 = 0"
    using v1 assms(2) by (simp add: sameView_def BestPathRandomNone_def)
  show ?case
  proof (cases "MaxIncrease (estimate c path) = 0")
    case True
    then show ?thesis using Cons.IH [OF v1] e by simp
  next
    case False
    then show ?thesis
      using bestLoop_pick [OF v1 assms(2), of paths path] e r
      by (simp add: BestPathRandomAmongAnyPath_def)
  qed
qed

text \<open>
  Claim C1. With randomness mode none, over a model: when some enumerated candidate
  has a positive estimated \<open>MaxIncrease\<close>, \<^verbatim>\<open>BestPath\<close> returns, with its
  statistics, the candidate that is optimal under the ranking \<open>better\<close> (higher
  \<open>MaxIncrease\<close>, then lower \<open>MaxStep\<close>, then lower \<open>FirstStep\<close>, then higher
  \<open>FirstIncrease\<close>) and, among the optimal ones, enumerated earliest; when none has,
  it returns \<^verbatim>\<open>(nil, nil)\<close>.
\<close>

theorem BestPath_first_optimal:
  assumes "randomness c = BestPathRandomNone"
  shows "(filter (\<lambda>p. 0 < MaxIncrease (estimate c p)) (Model_Paths m s maxLen) = [] \<and>
          fst (BestPath c (Model_Walkable m) s maxLen) = ([], None)) \<or>
         (\<exists>p. fst (BestPath c (Model_Walkable m) s maxLen) = (p, Some (estimate c p)) \<and>
            firstBest (estimate c)
              (filter (\<lambda>p. 0 < MaxIncrease (estimate c p)) (Model_Paths m s maxLen)) p)"
proof -
  let ?paths = "Model_Paths m s maxLen"
  have pos: "(\<lambda>p. 0 < MaxIncrease (estimate c p)) = (\<lambda>p. MaxIncrease (estimate c p) \<noteq> 0)"
    using estimate_MaxIncrease_nonneg [of c] by (auto simp: fun_eq_iff less_le)
  let ?good = "filter (\<lambda>p. MaxIncrease (estimate c p) \<noteq> 0) ?paths"
  have cand: "candidates c ?paths = (?paths, c)"
    using assms by (simp add: candidates_def)
  obtain c' where loop: "bestLoop c ?paths None [] =
          (case ?good of [] \<Rightarrow> ([], None, c')
           | p # ps \<Rightarrow> (pick (estimate c) p ps, Some (estimate c (pick (estimate c) p ps)), c'))"
    using bestLoop_None_pick [OF sameView_refl assms, of ?paths] by blast
  show ?thesis
  proof (cases ?good)
    case Nil
    then show ?thesis
      using loop cand unfolding pos
      by (simp add: BestPath_unfold Model_Walkable_def)
  next
    case (Cons p ps)
    define r where "r = pick (estimate c) p ps"
    have fb: "firstBest (estimate c) ?good r"
      unfolding Cons r_def by (rule pick_firstBest)
    then obtain pre post where "?good = pre @ r # post"
      unfolding firstBest_def by blast
    then have "r \<in> set ?good" by (metis in_set_conv_decomp)
    then have "r \<in> set ?paths" by simp
    then have ne: "r \<noteq> []" by (rule Model_Paths_no_empty_path)
    have "fst (BestPath c (Model_Walkable m) s maxLen) = (r, Some (estimate c r))"
      using loop cand Cons ne
      by (simp add: BestPath_unfold Model_Walkable_def r_def)
    then show ?thesis
      using fb unfolding pos by blast
  qed
qed


lemma BestPath_actionCoverer_2:
  "fst (BestPath actionCoverer (Model_Walkable newPlayerModelWithRawTransitions) startState 2) =
     ([playStep, pauseStep], Some \<lparr>MaxStep = 1, MaxIncrease = 2, FirstStep = 0, FirstIncrease = 1\<rparr>)"
  by code_simp

lemma randomness_actionCoverer: "randomness actionCoverer = BestPathRandomNone"
  by code_simp

theorem BestPath_first_optimal_witness:
  "randomness actionCoverer = BestPathRandomNone \<and>
   fst (BestPath actionCoverer (Model_Walkable newPlayerModelWithRawTransitions) startState 2)
     = ([playStep, pauseStep], Some (estimate actionCoverer [playStep, pauseStep])) \<and>
   firstBest (estimate actionCoverer)
     (filter (\<lambda>p. 0 < MaxIncrease (estimate actionCoverer p))
        (Model_Paths newPlayerModelWithRawTransitions startState 2))
     [playStep, pauseStep]"
proof -
  note ev = BestPath_actionCoverer_2
  have "playStep # [pauseStep] \<noteq> []" by simp
  then show ?thesis
    using BestPath_first_optimal [OF randomness_actionCoverer, of newPlayerModelWithRawTransitions startState 2]
      randomness_actionCoverer
    unfolding ev by auto
qed

lemma estimate_NewCoverer: "MaxIncrease (estimate NewCoverer p) = 0"
  by (simp add: estimate_def MaxIncrease_card covFunc_def NewCoverer_def)

theorem BestPath_never_zero_increase_witness:
  "list_all (\<lambda>p. MaxIncrease (estimate NewCoverer p) = 0)
     (Paths (Model_Walkable newPlayerModelWithRawTransitions) startState 2) \<and>
   fst (BestPath NewCoverer (Model_Walkable newPlayerModelWithRawTransitions) startState 2) = ([], None)"
proof -
  have h: "\<forall>p \<in> set (Paths (Model_Walkable newPlayerModelWithRawTransitions) startState 2).
             MaxIncrease (estimate NewCoverer p) = 0"
    by (simp add: estimate_NewCoverer)
  then have "fst (BestPath NewCoverer (Model_Walkable newPlayerModelWithRawTransitions) startState 2) = ([], None)"
    using BestPath_never_zero_increase [of NewCoverer "Model_Walkable newPlayerModelWithRawTransitions" startState 2]
    by blast
  then show ?thesis using h by (simp add: list_all_iff)
qed


subsection \<open>Coverage never decreases\<close>

lemma keys_foldl_incr: "Mapping.keys (foldl incr m xs) = Mapping.keys m \<union> set xs"
  by (induction xs arbitrary: m) auto

lemma monotone_ActionNames: "monotone ActionNames"
  by (auto simp: monotone_def ActionNames_def)

lemma monotone_ActionFormats: "monotone ActionFormats"
  by (auto simp: monotone_def ActionFormats_def)

lemma monotone_StateStrings: "monotone (StateStrings str)"
  by (auto simp: monotone_def StateStrings_def split: list.splits)

lemma monotone_StateActionStrings: "monotone (StateActionStrings str)"
  by (auto simp: monotone_def StateActionStrings_def)

lemma combinations_iff:
  "x \<in> set (combinations items combLenMax path) \<longleftrightarrow>
     (\<exists>combLen first. 1 \<le> combLen \<and> combLen \<le> combLenMax \<and> 0 \<le> first \<and>
        first \<le> int (length path) - combLen \<and>
        x = Join (items (take (nat combLen) (drop (nat first) path))) sep0)"
proof -
  let ?item = "\<lambda>combLen first. Join (items (take (nat combLen) (drop (nat first) path))) sep0"
  have eq: "set (combinations items combLenMax path) =
      (\<Union>combLen \<in> {1..combLenMax}. ?item combLen ` {0 .. int (length path) - combLen})"
    by (simp add: combinations_def)
  show ?thesis
  proof
    assume "x \<in> set (combinations items combLenMax path)"
    then obtain combLen where k: "combLen \<in> {1..combLenMax}"
      and "x \<in> ?item combLen ` {0 .. int (length path) - combLen}"
      unfolding eq by (elim UN_E)
    then obtain first where f: "first \<in> {0 .. int (length path) - combLen}" and x: "x = ?item combLen first"
      by (elim imageE)
    have "1 \<le> combLen \<and> combLen \<le> combLenMax \<and> 0 \<le> first \<and>
        first \<le> int (length path) - combLen \<and> x = ?item combLen first"
      using k f x by simp
    then show "\<exists>combLen first. 1 \<le> combLen \<and> combLen \<le> combLenMax \<and> 0 \<le> first \<and>
        first \<le> int (length path) - combLen \<and> x = ?item combLen first"
      by (intro exI)
  next
    assume "\<exists>combLen first. 1 \<le> combLen \<and> combLen \<le> combLenMax \<and> 0 \<le> first \<and>
        first \<le> int (length path) - combLen \<and> x = ?item combLen first"
    then obtain combLen first where k: "combLen \<in> {1..combLenMax}"
      and f: "first \<in> {0 .. int (length path) - combLen}" and x: "x = ?item combLen first"
      by auto
    have "x \<in> ?item combLen ` {0 .. int (length path) - combLen}"
      using x f by (rule image_eqI)
    then show "x \<in> set (combinations items combLenMax path)"
      unfolding eq using k by (intro UN_I)
  qed
qed

lemma monotone_combinations: "monotone (combinations items combLenMax)"
  unfolding monotone_def
proof (intro allI subsetI)
  fix p q :: "'a Path" and x
  assume "x \<in> set (combinations items combLenMax p)"
  then obtain combLen first where k: "1 \<le> combLen" "combLen \<le> combLenMax"
    and f: "0 \<le> first" "first \<le> int (length p) - combLen"
    and x: "x = Join (items (take (nat combLen) (drop (nat first) p))) sep0"
    unfolding combinations_iff by blast
  have fit: "nat first + nat combLen \<le> length p"
    using k f by linarith
  then have tk: "take (nat combLen) (drop (nat first) (p @ q)) = take (nat combLen) (drop (nat first) p)"
    by simp
  have x': "x = Join (items (take (nat combLen) (drop (nat first) (p @ q)))) sep0"
    unfolding tk by (rule x)
  have f': "first \<le> int (length (p @ q)) - combLen"
    using f by simp
  show "x \<in> set (combinations items combLenMax (p @ q))"
    unfolding combinations_iff using k f(1) f' x' by blast
qed

lemma consistent_sameView: "sameView c c' \<Longrightarrow> consistent c \<Longrightarrow> consistent c'"
  by (simp add: consistent_def sameView_def)

lemma consistent_addCovFunc:
  assumes "consistent c" and "monotone f"
  shows "consistent (addCovFunc c f)"
proof -
  obtain fs fs' p p' where "covFuncs c = fs @ fs'" "elems (coveredPath c) = p @ p'"
    "Mapping.keys (coverCount c) = set (concat (map (\<lambda>f. f p) fs))"
    using assms(1) unfolding consistent_def by blast
  then have "covFuncs (addCovFunc c f) = fs @ (fs' @ [f]) \<and> elems (coveredPath (addCovFunc c f)) = p @ p' \<and>
      Mapping.keys (coverCount (addCovFunc c f)) = set (concat (map (\<lambda>f. f p) fs))"
    by (simp add: addCovFunc_def)
  moreover have "\<forall>g \<in> set (covFuncs (addCovFunc c f)). monotone g"
    using assms unfolding consistent_def by (simp add: addCovFunc_def)
  ultimately show ?thesis unfolding consistent_def by blast
qed

lemma consistent_raiseHistoryLen: "consistent c \<Longrightarrow> consistent (raiseHistoryLen c n)"
  by (simp add: consistent_def raiseHistoryLen_def)

lemma consistent_UpdateCoverage:
  assumes "consistent c"
  shows "consistent (UpdateCoverage c)"
proof -
  have "covFuncs (UpdateCoverage c) = covFuncs c @ [] \<and>
        elems (coveredPath (UpdateCoverage c)) = elems (coveredPath c) @ [] \<and>
        Mapping.keys (coverCount (UpdateCoverage c))
          = set (concat (map (\<lambda>f. f (elems (coveredPath c))) (covFuncs c)))"
    by (simp add: UpdateCoverage_def keys_foldl_incr covFunc_def)
  moreover have "\<forall>g \<in> set (covFuncs (UpdateCoverage c)). monotone g"
    using assms unfolding consistent_def by (simp add: UpdateCoverage_def)
  ultimately show ?thesis unfolding consistent_def by blast
qed

lemma elems_go_append [simp]: "elems (go_append g sl xs) = elems sl @ xs"
  by (simp add: go_append_def)

lemma consistent_MarkCovered:
  assumes "consistent c"
  shows "consistent (MarkCovered g c steps)"
proof -
  obtain fs fs' p p' where "covFuncs c = fs @ fs'" "elems (coveredPath c) = p @ p'"
    "Mapping.keys (coverCount c) = set (concat (map (\<lambda>f. f p) fs))"
    using assms unfolding consistent_def by blast
  then have "covFuncs (MarkCovered g c steps) = fs @ fs' \<and>
      elems (coveredPath (MarkCovered g c steps)) = p @ (p' @ steps) \<and>
      Mapping.keys (coverCount (MarkCovered g c steps)) = set (concat (map (\<lambda>f. f p) fs))"
    by (simp add: MarkCovered_def)
  moreover have "\<forall>f \<in> set (covFuncs (MarkCovered g c steps)). monotone f"
    using assms unfolding consistent_def by (simp add: MarkCovered_def)
  ultimately show ?thesis unfolding consistent_def by blast
qed

lemma sameView_BestPath: "sameView c (snd (BestPath c m s maxLen))"
proof -
  let ?c0 = "snd (candidates c (Paths m s maxLen))"
  let ?ps = "fst (candidates c (Paths m s maxLen))"
  obtain c' where v: "sameView c c'" and
    "bestLoop ?c0 ?ps None [] = ([], None, c') \<or>
     (\<exists>p \<in> set ?ps. MaxIncrease (estimate c p) \<noteq> 0 \<and> bestLoop ?c0 ?ps None [] = (p, Some (estimate c p), c'))"
    using bestLoop_keep_or_take [OF candidates_sameView, of c "Paths m s maxLen" ?ps None "[]"] by blast
  then have "snd (snd (bestLoop ?c0 ?ps None [])) = c'" by auto
  moreover have "snd (BestPath c m s maxLen) = snd (snd (bestLoop ?c0 ?ps None []))"
    by (simp add: BestPath_def candidates_def [symmetric] Let_def case_prod_beta)
  ultimately have "snd (BestPath c m s maxLen) = c'" by simp
  then show ?thesis using v by simp
qed

lemma reachable_consistent: "reachable str g c \<Longrightarrow> consistent c"
proof (induction rule: reachable.induct)
  case new
  have "covFuncs (NewCoverer :: 'a Coverer) = [] @ [] \<and> elems (coveredPath (NewCoverer :: 'a Coverer)) = [] @ [] \<and>
     Mapping.keys (coverCount (NewCoverer :: 'a Coverer)) = set (concat (map (\<lambda>f. f []) []))"
    by (simp add: NewCoverer_def nil_slice_def)
  moreover have "\<forall>f \<in> set (covFuncs (NewCoverer :: 'a Coverer)). monotone f"
    by (simp add: NewCoverer_def)
  ultimately show ?case unfolding consistent_def by blast
next
  case (actions c)
  then show ?case unfolding CoverActions_def
    by (intro consistent_addCovFunc monotone_ActionNames)
next
  case (formats c)
  then show ?case unfolding CoverActionFormats_def
    by (intro consistent_addCovFunc monotone_ActionFormats)
next
  case (actionCombinations c combLenMax)
  then show ?case unfolding CoverActionCombinations_def
    by (intro consistent_addCovFunc monotone_combinations consistent_raiseHistoryLen)
next
  case (formatCombinations c combLenMax)
  then show ?case unfolding CoverActionFormatCombinations_def
    by (intro consistent_addCovFunc monotone_combinations consistent_raiseHistoryLen)
next
  case (states c)
  then show ?case unfolding CoverStates_def
    by (intro consistent_addCovFunc monotone_StateStrings)
next
  case (stateActions c)
  then show ?case unfolding CoverStateActions_def
    by (intro consistent_addCovFunc monotone_StateActionStrings)
next
  case (stateCombinations c combLenMax)
  then show ?case unfolding CoverStateCombinations_def
    by (intro consistent_addCovFunc monotone_combinations consistent_raiseHistoryLen)
next
  case (update c)
  show ?case using update.IH by (rule consistent_UpdateCoverage)
next
  case (mark c steps)
  show ?case using mark.IH by (rule consistent_MarkCovered)
next
  case (random c newSource seed rness)
  then show ?case by (simp add: consistent_def SetBestPathRandom_def)
next
  case (estimated c path)
  show ?case using sameView_Estimate estimated.IH by (rule consistent_sameView)
next
  case (searched c m s maxLen)
  show ?case using sameView_BestPath searched.IH by (rule consistent_sameView)
qed

lemma consistent_coverage_monotone:
  assumes "consistent c"
  shows "Coverage c \<le> Coverage (UpdateCoverage (MarkCovered g c steps))"
proof -
  obtain fs fs' p p' where cf: "covFuncs c = fs @ fs'" and cp: "elems (coveredPath c) = p @ p'"
    and keys: "Mapping.keys (coverCount c) = set (concat (map (\<lambda>f. f p) fs))"
    using assms unfolding consistent_def by blast
  have mono: "\<forall>f \<in> set (covFuncs c). monotone f"
    using assms unfolding consistent_def by blast
  let ?after = "UpdateCoverage (MarkCovered g c steps)"
  have after: "Mapping.keys (coverCount ?after)
      = set (concat (map (\<lambda>f. f (p @ (p' @ steps))) (fs @ fs')))"
    using cf cp by (simp add: UpdateCoverage_def MarkCovered_def keys_foldl_incr covFunc_def)
  have sub: "Mapping.keys (coverCount c) \<subseteq> Mapping.keys (coverCount ?after)"
  proof
    fix x assume "x \<in> Mapping.keys (coverCount c)"
    then obtain f where f: "f \<in> set fs" and x: "x \<in> set (f p)"
      unfolding keys by auto
    have "monotone f" using mono f cf by simp
    then have "x \<in> set (f (p @ (p' @ steps)))"
      using x unfolding monotone_def by blast
    then show "x \<in> Mapping.keys (coverCount ?after)"
      unfolding after using f by auto
  qed
  have fin: "finite (Mapping.keys (coverCount ?after))"
    unfolding after by simp
  then have fin0: "finite (Mapping.keys (coverCount c))"
    using sub by (rule rev_finite_subset)
  have "card (Mapping.keys (coverCount c)) \<le> card (Mapping.keys (coverCount ?after))"
    using fin sub by (rule card_mono)
  then show ?thesis
    using fin fin0 by (simp add: Coverage_def len_card)
qed

text \<open>
  Claim C7. For every coverer that the operations of cover.go can produce, with the
  built-in coverage functions registered in any combination, and for any steps:
  \<^verbatim>\<open>Coverage()\<close> after \<^verbatim>\<open>MarkCovered(steps...)\<close> and \<^verbatim>\<open>UpdateCoverage()\<close> is at
  least \<^verbatim>\<open>Coverage()\<close> before.
\<close>

theorem coverage_monotone:
  "reachable str growslice c \<Longrightarrow>
     Coverage c \<le> Coverage (UpdateCoverage (MarkCovered growslice c steps))"
  by (rule consistent_coverage_monotone) (rule reachable_consistent)

lemma reachable_coveredPlayPause: "reachable PlayerState_String (\<lambda>old need. need) coveredPlayPause"
  unfolding coveredPlayPause_def
  by (intro reachable.update reachable.mark reachable.actions reachable.new)

lemma Coverage_before: "Coverage coveredPlayPause = 2"
  by code_simp

lemma Coverage_after: "Coverage (UpdateCoverage (MarkCovered (\<lambda>old need. need) coveredPlayPause [nextsongStep])) = 3"
  by code_simp

theorem coverage_monotone_witness:
  "reachable PlayerState_String (\<lambda>old need. need) coveredPlayPause \<and>
   Coverage coveredPlayPause = 2 \<and>
   Coverage (UpdateCoverage (MarkCovered (\<lambda>old need. need) coveredPlayPause [nextsongStep])) = 3 \<and>
   Coverage coveredPlayPause
     \<le> Coverage (UpdateCoverage (MarkCovered (\<lambda>old need. need) coveredPlayPause [nextsongStep]))"
  using coverage_monotone [OF reachable_coveredPlayPause, of "[nextsongStep]"]
    reachable_coveredPlayPause Coverage_before Coverage_after
  by simp

subsection \<open>The player scenario\<close>

text \<open>
  The evaluation below enumerates 169 paths. \<open>Model_Paths_Suc\<close>, proved above from the
  definition, is the equation it unfolds: it builds each list once instead of
  appending to it path by path.
\<close>

lemma Model_Paths_code [code]:
  "Model_Paths m s 0 = []"
  "Model_Paths m s (Suc n) =
     concat (map (\<lambda>step. prepend step (Model_Paths m (EndState step) n)) (Model_StepsFrom m s))"
  by (simp_all add: Model_Paths_Suc del: Model_Paths.simps(2))

lemma BestPath_actionCoverer_6:
  "fst (BestPath actionCoverer (Model_Walkable newPlayerModelWithRawTransitions) startState 6) =
     ([playStep, pauseStep, nextsongStep, prevsongStep, playStep, pauseStep],
      Some \<lparr>MaxStep = 3, MaxIncrease = 4, FirstStep = 0, FirstIncrease = 1\<rparr>)"
  by code_simp

text \<open>
  Claim C9 (\<^verbatim>\<open>TestCoverPlayerActions\<close>). On the player model, from
  \<open>{playing:false, song:1}\<close>, a fresh coverer with \<^verbatim>\<open>CoverActionCombinations(1)\<close> and
  randomness none: \<^verbatim>\<open>BestPath\<close> with depth 6 returns a path of length 6 with
  \<open>MaxIncrease = 4\<close> and \<open>MaxStep = 3\<close>, and the actions of its first four steps are
  play, pause, nextsong and prevsong.
\<close>

theorem player_actions_scenario:
  "(case fst (BestPath actionCoverer (Model_Walkable newPlayerModelWithRawTransitions) startState 6) of
      (path, stats) \<Rightarrow>
        length path = 6 \<and>
        map_option MaxIncrease stats = Some 4 \<and>
        map_option MaxStep stats = Some 3 \<and>
        set (map (\<lambda>step. Action_String (action step)) (take 4 path))
          = {''play'', ''pause'', ''nextsong'', ''prevsong''}) \<and>
   randomness actionCoverer = BestPathRandomNone"
  unfolding BestPath_actionCoverer_6
  by (simp add: randomness_actionCoverer Action_String_def playStep_def pauseStep_def nextsongStep_def
      prevsongStep_def NewStep_def plainAction_def NewAction_def)

end
